theory Spec2Isabelle
  imports
    Complex_Main
    "HOL-Library.Multiset"
    "HOL-Library.Sublist"
    "HOL-Library.Char_ord"
    "HOL-Library.List_Lexorder"
    "HOL-Library.Log_Nat"
begin

section \<open>Projects Dashboard: the client-side derivation pipeline\<close>

text \<open>
  The repository holds two variants of the dashboard component. The variant that
  follows \<^verbatim>\<open>calculateKPIs\<close> in \<^verbatim>\<open>src/api/kpis.ts\<close> (six sort keys, a seven-field
  search haystack, a page reset in an effect, charts in \<^verbatim>\<open>ChartsPanel.tsx\<close>) is
  called variant A below; \<^verbatim>\<open>src/pages/DashboardPage.tsx\<close> (three sort keys, search
  over name, owner and id, page reset in the handlers, inline charts) is variant B.
  Definitions of variant B carry the suffix \<open>_B\<close> where the names coincide.

  Modelling decisions.
  \<^item> An amount, a JavaScript \<^verbatim>\<open>number\<close>, is modelled as an \<open>int\<close>, and sums of
    amounts are exact, as they are in doubles below \<open>2^53\<close>. The quotient and the
    product in the burn rate are rounded as IEEE-754 binary64 does, to the nearest
    double with a tie to the even mantissa (\<open>binary64\<close>); the exponent is not
    bounded, so overflow and subnormal numbers are outside the model, as are
    fractional amounts and infinities. \<^verbatim>\<open>NaN\<close> is modelled where variant B can
    produce it from a missing field: a \<open>jsnum\<close> is \<open>None\<close> for \<^verbatim>\<open>NaN\<close>.
  \<^item> A string is a list of 8-bit characters; \<^verbatim>\<open>toLowerCase\<close> and \<^verbatim>\<open>trim\<close> are
    modelled on ASCII.
  \<^item> Every field of a record except its id may be missing at run time: \<open>None\<close> is a
    property that is absent (\<^verbatim>\<open>undefined\<close>). Variant A guards for this with \<^verbatim>\<open>??\<close>
    and \<^verbatim>\<open>== null\<close> and treats \<^verbatim>\<open>null\<close> alike; variant B has no guard, so a
    missing text field raises \<^verbatim>\<open>TypeError\<close> and a missing number gives \<^verbatim>\<open>NaN\<close>.
  \<^item> \<^verbatim>\<open>String.prototype.localeCompare\<close> belongs to the host; it is the parameter
    \<open>lc\<close> of everything that sorts on a text key. \<^verbatim>\<open>new Date(s).getTime()\<close> is
    the parameter \<open>getTime\<close> of variant B.
  \<^item> \<^verbatim>\<open>Array.prototype.sort\<close> is a stable sort (ECMAScript 2019); it is modelled
    as the stable insertion sort \<open>js_sort\<close> driven by the sign of the comparator.
  \<^item> Names follow the source. The field \<^verbatim>\<open>id\<close> is \<open>pid\<close>, the filter value
    \<^verbatim>\<open>"ALL"\<close> is \<open>AllStatuses\<close>, \<^verbatim>\<open>includes\<close> is \<open>includes_str\<close> and \<^verbatim>\<open>String\<close> on
    a number is \<open>String_num\<close>, since the plain names are taken.
\<close>

subsection \<open>Data model (\<^verbatim>\<open>src/types/project.ts\<close>)\<close>

datatype ProjectStatus = ACTIVE | PAUSED | DONE

record Project =
  pid :: int
  name :: "string option"
  status :: "ProjectStatus option"
  owner :: "string option"
  budget :: "int option"
  spent :: "int option"
  createdAt :: "string option"

datatype StatusFilter = AllStatuses | Only ProjectStatus

datatype SortKey = Key_createdAt | Key_name | Key_owner | Key_budget | Key_spent | Key_status

datatype SortDir = Asc | Desc

text \<open>The value of a record field as the comparator sees it.\<close>

datatype jsval = JNull | JNum int | JStr string

subsection \<open>Strings and numbers of the host\<close>

definition lowerChar :: "char \<Rightarrow> char" where
  "lowerChar c =
     (if CHR ''A'' \<le> c \<and> c \<le> CHR ''Z'' then char_of (of_char c + (32::nat)) else c)"

definition toLowerCase :: "string \<Rightarrow> string" where
  "toLowerCase s = map lowerChar s"

definition isSpace :: "char \<Rightarrow> bool" where
  "isSpace c = (c \<in> set [CHR 0x20, CHR 0x09, CHR 0x0A, CHR 0x0B, CHR 0x0C, CHR 0x0D])"

definition trim :: "string \<Rightarrow> string" where
  "trim s = rev (dropWhile isSpace (rev (dropWhile isSpace s)))"

fun join :: "string \<Rightarrow> string list \<Rightarrow> string" where
  "join sep [] = []"
| "join sep [x] = x"
| "join sep (x # y # ys) = x @ sep @ join sep (y # ys)"

text \<open>\<^verbatim>\<open>hay.includes(q)\<close>: \<open>q\<close> occurs in \<open>hay\<close> as a contiguous substring.\<close>

fun includes_str :: "string \<Rightarrow> string \<Rightarrow> bool" where
  "includes_str [] q = (q = [])"
| "includes_str (h # hs) q = (prefix q (h # hs) \<or> includes_str hs q)"

definition digitChar :: "nat \<Rightarrow> char" where
  "digitChar d = char_of (48 + d)"

fun natToString :: "nat \<Rightarrow> string" where
  "natToString n =
     (if n < 10 then [digitChar n] else natToString (n div 10) @ [digitChar (n mod 10)])"

text \<open>\<^verbatim>\<open>String(n)\<close> for an integral number.\<close>

definition String_num :: "int \<Rightarrow> string" where
  "String_num n = (if n < 0 then CHR ''-'' # natToString (nat (- n)) else natToString (nat n))"

definition statusLabel :: "ProjectStatus \<Rightarrow> string" where
  "statusLabel s = (case s of ACTIVE \<Rightarrow> ''ACTIVE'' | PAUSED \<Rightarrow> ''PAUSED'' | DONE \<Rightarrow> ''DONE'')"

text \<open>
  Doubles. A double is a rational \<open>m * 2^e\<close> with \<open>\<bar>m\<bar> < 2^53\<close>. The result of a
  division or a multiplication of doubles is the exact result rounded to the nearest
  double, a tie going to the even mantissa: \<open>expo2 a\<close> is the binary exponent
  \<open>\<lfloor>log\<^sub>2 a\<rfloor>\<close> of a positive \<open>a\<close>, and \<open>binary64 x\<close> rounds \<open>x\<close> to 53 significant
  bits.
\<close>

definition roundHalfEven :: "rat \<Rightarrow> int" where
  "roundHalfEven y =
     (let f = \<lfloor>y\<rfloor>; r = y - of_int f
      in if r < 1 / 2 then f else if 1 / 2 < r then f + 1 else if even f then f else f + 1)"

definition expo2 :: "rat \<Rightarrow> int" where
  "expo2 a =
     (let (p, q) = quotient_of a; d = bitlen p - bitlen q
      in if 2 powi d \<le> a then d else d - 1)"

definition binary64 :: "rat \<Rightarrow> rat" where
  "binary64 x =
     (if x = 0 then 0
      else (let e = expo2 \<bar>x\<bar> - 52
            in sgn x * of_int (roundHalfEven (\<bar>x\<bar> / 2 powi e)) * 2 powi e))"

text \<open>
  \<^verbatim>\<open>Math.round\<close> takes a double to the nearest integer, a tie towards \<open>+\<infinity>\<close>; it
  is exact on the double it is given.
\<close>

definition Math_round :: "rat \<Rightarrow> int" where
  "Math_round x = \<lfloor>x + 1 / 2\<rfloor>"

definition Math_ceil :: "rat \<Rightarrow> int" where
  "Math_ceil x = \<lceil>x\<rceil>"

text \<open>
  \<^verbatim>\<open>xs.slice(start, stop)\<close>: a negative index counts from the end, both are clamped to
  the array, and an empty range gives the empty array.
\<close>

definition slice :: "'a list \<Rightarrow> int \<Rightarrow> int \<Rightarrow> 'a list" where
  "slice xs start stop =
     (let len = int (length xs);
          k = (if start < 0 then max (len + start) 0 else min start len);
          e = (if stop < 0 then max (len + stop) 0 else min stop len)
      in take (nat (e - k)) (drop (nat k) xs))"

text \<open>
  \<^verbatim>\<open>xs.sort(cmp)\<close>: \<open>insertBy\<close> puts \<open>x\<close> in front of the first element that it does
  not have to follow, so that elements comparing equal keep their order. For a
  comparator that is not consistent ECMAScript leaves the order to the engine; the
  model then shows one admissible order.
\<close>

fun insertBy :: "('a \<Rightarrow> 'a \<Rightarrow> int) \<Rightarrow> 'a \<Rightarrow> 'a list \<Rightarrow> 'a list" where
  "insertBy cmp x [] = [x]"
| "insertBy cmp x (y # ys) = (if cmp x y \<le> 0 then x # y # ys else y # insertBy cmp x ys)"

definition js_sort :: "('a \<Rightarrow> 'a \<Rightarrow> int) \<Rightarrow> 'a list \<Rightarrow> 'a list" where
  "js_sort cmp xs = foldr (insertBy cmp) xs []"

subsection \<open>KPIs (\<^verbatim>\<open>calculateKPIs\<close> in \<^verbatim>\<open>src/api/kpis.ts\<close>)\<close>

record KPIValues =
  totalBudget :: int
  totalSpent :: int
  activeCount :: nat
  burnRate :: int

text \<open>\<^verbatim>\<open>p.budget ?? 0\<close> and \<^verbatim>\<open>p.spent ?? 0\<close>.\<close>

definition budget0 :: "Project \<Rightarrow> int" where
  "budget0 p = (case budget p of None \<Rightarrow> 0 | Some b \<Rightarrow> b)"

definition spent0 :: "Project \<Rightarrow> int" where
  "spent0 p = (case spent p of None \<Rightarrow> 0 | Some s \<Rightarrow> s)"

text \<open>
  The four local constants of \<^verbatim>\<open>calculateKPIs\<close>. In
  \<^verbatim>\<open>Math.round((totalSpent / totalBudget) * 100)\<close> the division and the
  multiplication each round to a double.
\<close>

definition kpiValues :: "Project list \<Rightarrow> KPIValues" where
  "kpiValues projects =
     (let tb = foldl (\<lambda>s p. s + budget0 p) 0 projects;
          ts = foldl (\<lambda>s p. s + spent0 p) 0 projects;
          ac = length (filter (\<lambda>p. status p = Some ACTIVE) projects);
          br = (if tb \<le> 0 then 0
                else Math_round (binary64 (binary64 (of_int ts / of_int tb) * 100)))
      in \<lparr>totalBudget = tb, totalSpent = ts, activeCount = ac, burnRate = br\<rparr>)"

datatype KPIValue = VStr string | VNum int

record KPI =
  label :: string
  "value" :: KPIValue

text \<open>
  \<open>formatEUR\<close> stands for the \<^verbatim>\<open>Intl.NumberFormat\<close> currency formatter of the host.
\<close>

definition calculateKPIs :: "(int \<Rightarrow> string) \<Rightarrow> Project list \<Rightarrow> KPI list" where
  "calculateKPIs formatEUR projects =
     (let k = kpiValues projects in
      [\<lparr>label = ''Total Budget'', value = VStr (formatEUR (totalBudget k))\<rparr>,
       \<lparr>label = ''Total Spent'', value = VStr (formatEUR (totalSpent k))\<rparr>,
       \<lparr>label = ''Active Projects'', value = VNum (int (activeCount k))\<rparr>,
       \<lparr>label = ''Burn Rate'', value = VStr (String_num (burnRate k) @ ''%'')\<rparr>])"

subsection \<open>Variant A: filter and sort (\<^verbatim>\<open>filteredProjects\<close>)\<close>

text \<open>\<^verbatim>\<open>(s ?? "").toLowerCase().trim()\<close>\<close>

definition normalize :: "string option \<Rightarrow> string" where
  "normalize s = trim (toLowerCase (case s of None \<Rightarrow> [] | Some t \<Rightarrow> t))"

text \<open>\<^verbatim>\<open>String(p.budget ?? "")\<close>: the empty string for a missing amount.\<close>

definition String_amount :: "int option \<Rightarrow> string" where
  "String_amount a = (case a of None \<Rightarrow> [] | Some n \<Rightarrow> String_num n)"

definition hay :: "Project \<Rightarrow> string" where
  "hay p =
     join '' ''
       (map normalize
          [name p,
           owner p,
           Some (String_num (pid p)),
           map_option statusLabel (status p),
           Some (String_amount (budget p)),
           Some (String_amount (spent p)),
           createdAt p])"

text \<open>The callback of \<^verbatim>\<open>projects.filter\<close>; \<open>q\<close> is the normalized query.\<close>

definition keeps :: "string \<Rightarrow> StatusFilter \<Rightarrow> Project \<Rightarrow> bool" where
  "keeps q statusFilter p =
     (let matchesStatus = (case statusFilter of AllStatuses \<Rightarrow> True | Only s \<Rightarrow> status p = Some s)
      in if q = [] then matchesStatus else matchesStatus \<and> includes_str (hay p) q)"

definition compare :: "(string \<Rightarrow> string \<Rightarrow> int) \<Rightarrow> jsval \<Rightarrow> jsval \<Rightarrow> int" where
  "compare lc a b =
     (if a = JNull \<and> b = JNull then 0
      else if a = JNull then - 1
      else if b = JNull then 1
      else (case (a, b) of
              (JNum x, JNum y) \<Rightarrow> x - y
            | _ \<Rightarrow> lc (case a of JNum x \<Rightarrow> String_num x | JStr s \<Rightarrow> s | JNull \<Rightarrow> ''null'')
                     (case b of JNum y \<Rightarrow> String_num y | JStr t \<Rightarrow> t | JNull \<Rightarrow> ''null'')))"

text \<open>\<^verbatim>\<open>(a as any)[sortKey]\<close>\<close>

definition field :: "SortKey \<Rightarrow> Project \<Rightarrow> jsval" where
  "field k p =
     (case k of
        Key_createdAt \<Rightarrow> (case createdAt p of None \<Rightarrow> JNull | Some s \<Rightarrow> JStr s)
      | Key_name \<Rightarrow> (case name p of None \<Rightarrow> JNull | Some s \<Rightarrow> JStr s)
      | Key_owner \<Rightarrow> (case owner p of None \<Rightarrow> JNull | Some s \<Rightarrow> JStr s)
      | Key_budget \<Rightarrow> (case budget p of None \<Rightarrow> JNull | Some n \<Rightarrow> JNum n)
      | Key_spent \<Rightarrow> (case spent p of None \<Rightarrow> JNull | Some n \<Rightarrow> JNum n)
      | Key_status \<Rightarrow> (case status p of None \<Rightarrow> JNull | Some s \<Rightarrow> JStr (statusLabel s)))"

text \<open>The callback of \<^verbatim>\<open>list.sort\<close>.\<close>

definition sortCmp ::
  "(string \<Rightarrow> string \<Rightarrow> int) \<Rightarrow> SortKey \<Rightarrow> SortDir \<Rightarrow> Project \<Rightarrow> Project \<Rightarrow> int" where
  "sortCmp lc sortKey sortDir a b =
     (let av = field sortKey a; bv = field sortKey b; c = compare lc av bv
      in if sortDir = Asc then c else - c)"

definition filterStage :: "Project list \<Rightarrow> string \<Rightarrow> StatusFilter \<Rightarrow> Project list" where
  "filterStage projects query statusFilter =
     (let q = normalize (Some query) in filter (keeps q statusFilter) projects)"

definition sortStage ::
  "(string \<Rightarrow> string \<Rightarrow> int) \<Rightarrow> SortKey \<Rightarrow> SortDir \<Rightarrow> Project list \<Rightarrow> Project list" where
  "sortStage lc sortKey sortDir list = js_sort (sortCmp lc sortKey sortDir) list"

definition filteredProjects ::
  "(string \<Rightarrow> string \<Rightarrow> int) \<Rightarrow> Project list \<Rightarrow> string \<Rightarrow> StatusFilter \<Rightarrow> SortKey \<Rightarrow> SortDir
     \<Rightarrow> Project list" where
  "filteredProjects lc projects query statusFilter sortKey sortDir =
     sortStage lc sortKey sortDir (filterStage projects query statusFilter)"

text \<open>
  ECMAScript's notion of a consistent comparator: equality under the comparator is
  an equivalence, and both strict orders are transitive.
\<close>

definition consistentCompare :: "('a \<Rightarrow> 'a \<Rightarrow> int) \<Rightarrow> bool" where
  "consistentCompare c \<longleftrightarrow>
     (\<forall>a. c a a = 0)
     \<and> (\<forall>a b. c a b = 0 \<longrightarrow> c b a = 0)
     \<and> (\<forall>a b d. c a b = 0 \<and> c b d = 0 \<longrightarrow> c a d = 0)
     \<and> (\<forall>a b d. c a b < 0 \<and> c b d < 0 \<longrightarrow> c a d < 0)
     \<and> (\<forall>a b d. 0 < c a b \<and> 0 < c b d \<longrightarrow> 0 < c a d)"

subsection \<open>Variant A: pagination\<close>

definition totalPages :: "int \<Rightarrow> nat \<Rightarrow> int" where
  "totalPages pageSize n = max 1 (Math_ceil (of_nat n / of_int pageSize))"

text \<open>\<^verbatim>\<open>Math.min(page, totalPages)\<close>: an upper bound only.\<close>

definition safePage :: "int \<Rightarrow> nat \<Rightarrow> int \<Rightarrow> int" where
  "safePage pageSize n pg = min pg (totalPages pageSize n)"

definition pagedProjects :: "int \<Rightarrow> 'a list \<Rightarrow> int \<Rightarrow> 'a list" where
  "pagedProjects pageSize list pg =
     (let start = (safePage pageSize (length list) pg - 1) * pageSize
      in slice list start (start + pageSize))"

subsection \<open>Charts (\<^verbatim>\<open>src/components/ChartsPanel.tsx\<close>)\<close>

record Bar =
  bar_id :: int
  bar_name :: "string option"
  bar_budget :: int
  bar_spent :: int

text \<open>
  \<^verbatim>\<open>countByStatus\<close>: a record without a status adds a property that the result
  does not read, so the three counts skip it.
\<close>

definition countByStatus :: "Project list \<Rightarrow> (string \<times> nat) list" where
  "countByStatus projects =
     (let m = foldl (\<lambda>m p. case status p of None \<Rightarrow> m | Some s \<Rightarrow> m(s := m s + 1))
                (\<lambda>_. 0) projects
      in [(''ACTIVE'', m ACTIVE), (''PAUSED'', m PAUSED), (''DONE'', m DONE)])"

definition budgetCmp :: "Project \<Rightarrow> Project \<Rightarrow> int" where
  "budgetCmp a b = budget0 b - budget0 a"

definition topBudget :: "Project list \<Rightarrow> Bar list" where
  "topBudget projects =
     map (\<lambda>p. \<lparr>bar_id = pid p, bar_name = name p, bar_budget = budget0 p, bar_spent = spent0 p\<rparr>)
       (slice (js_sort budgetCmp projects) 0 6)"

subsection \<open>Variant A: the component\<close>

record UiState =
  query :: string
  statusFilter :: StatusFilter
  sortKey :: SortKey
  sortDir :: SortDir
  page :: int

definition pageSize_A :: int where
  "pageSize_A = 5"

definition initial :: UiState where
  "initial = \<lparr>query = [], statusFilter = AllStatuses, sortKey = Key_createdAt, sortDir = Desc, page = 1\<rparr>"

record View =
  view_kpis :: "KPI list"
  view_kpiValues :: KPIValues
  view_statusData :: "(string \<times> nat) list"
  view_topBudget :: "Bar list"
  view_rows :: "Project list"
  view_safePage :: int
  view_totalPages :: int

text \<open>The list every derived artifact of one render is computed from.\<close>

definition current :: "(string \<Rightarrow> string \<Rightarrow> int) \<Rightarrow> Project list \<Rightarrow> UiState \<Rightarrow> Project list" where
  "current lc projects st =
     filteredProjects lc projects (query st) (statusFilter st) (sortKey st) (sortDir st)"

definition render ::
  "(string \<Rightarrow> string \<Rightarrow> int) \<Rightarrow> (int \<Rightarrow> string) \<Rightarrow> Project list \<Rightarrow> UiState \<Rightarrow> View" where
  "render lc formatEUR projects st =
     (let fp = current lc projects st in
      \<lparr>view_kpis = calculateKPIs formatEUR fp,
       view_kpiValues = kpiValues fp,
       view_statusData = countByStatus fp,
       view_topBudget = topBudget fp,
       view_rows = pagedProjects pageSize_A fp (page st),
       view_safePage = safePage pageSize_A (length fp) (page st),
       view_totalPages = totalPages pageSize_A (length fp)\<rparr>)"

datatype Event =
    SetQuery string
  | SetStatusFilter StatusFilter
  | SetSortKey SortKey
  | ToggleSortDir
  | Prev
  | Next

text \<open>The state setters the handlers call; \<open>tp\<close> is \<^verbatim>\<open>totalPages\<close> of the last render.\<close>

definition handler :: "int \<Rightarrow> Event \<Rightarrow> UiState \<Rightarrow> UiState" where
  "handler tp ev st =
     (case ev of
        SetQuery s \<Rightarrow> st\<lparr>query := s\<rparr>
      | SetStatusFilter f \<Rightarrow> st\<lparr>statusFilter := f\<rparr>
      | SetSortKey k \<Rightarrow> st\<lparr>sortKey := k\<rparr>
      | ToggleSortDir \<Rightarrow> st\<lparr>sortDir := (if sortDir st = Asc then Desc else Asc)\<rparr>
      | Prev \<Rightarrow> st\<lparr>page := max 1 (page st - 1)\<rparr>
      | Next \<Rightarrow> st\<lparr>page := min tp (page st + 1)\<rparr>)"

text \<open>
  \<^verbatim>\<open>useEffect(() => setPage(1), [query, statusFilter, sortKey, sortDir])\<close>: the effect
  runs when one of its four dependencies differs from the previous render.
\<close>

definition deps :: "UiState \<Rightarrow> string \<times> StatusFilter \<times> SortKey \<times> SortDir" where
  "deps st = (query st, statusFilter st, sortKey st, sortDir st)"

definition effect :: "UiState \<Rightarrow> UiState \<Rightarrow> UiState" where
  "effect before st = (if deps st \<noteq> deps before then st\<lparr>page := 1\<rparr> else st)"

text \<open>
  An event runs its handler; the component renders with the state the handler
  left, and the effect of that render runs afterwards. \<open>step\<close> is the state once
  the effect has run.
\<close>

definition step :: "(string \<Rightarrow> string \<Rightarrow> int) \<Rightarrow> Project list \<Rightarrow> Event \<Rightarrow> UiState \<Rightarrow> UiState" where
  "step lc projects ev st =
     effect st (handler (totalPages pageSize_A (length (current lc projects st))) ev st)"

text \<open>
  The states the component renders: the state a handler leaves, and the state after
  the effect. The record snapshot may change between two events (a refetch), so
  every event takes its own snapshot.
\<close>

inductive reachable :: "(string \<Rightarrow> string \<Rightarrow> int) \<Rightarrow> UiState \<Rightarrow> bool"
  for lc :: "string \<Rightarrow> string \<Rightarrow> int" where
  reach_init: "reachable lc initial"
| reach_handler:
    "reachable lc st \<Longrightarrow>
     reachable lc (handler (totalPages pageSize_A (length (current lc projects st))) ev st)"
| reach_effect: "reachable lc st \<Longrightarrow> reachable lc (step lc projects ev st)"

subsection \<open>Variant B (\<^verbatim>\<open>src/pages/DashboardPage.tsx\<close>)\<close>

datatype JsError = TypeError

type_synonym jsnum = "int option"


definition sub_js :: "jsnum \<Rightarrow> jsnum \<Rightarrow> jsnum" where
  "sub_js a b = (case (a, b) of (Some x, Some y) \<Rightarrow> Some (x - y) | _ \<Rightarrow> None)"

text \<open>\<^verbatim>\<open>sort\<close> reads a comparator result of \<^verbatim>\<open>NaN\<close> as \<open>+0\<close>.\<close>

definition nanToZero :: "jsnum \<Rightarrow> int" where
  "nanToZero v = (case v of None \<Rightarrow> 0 | Some x \<Rightarrow> x)"

definition clamp :: "int \<Rightarrow> int \<Rightarrow> int \<Rightarrow> int" where
  "clamp n lo hi = max lo (min hi n)"

datatype SortKey_B = Sort_createdAt | Sort_budget | Sort_spent

text \<open>
  \<^verbatim>\<open>!qq || p.name.toLowerCase().includes(qq) || p.owner.toLowerCase().includes(qq)
  || String(p.id).includes(qq)\<close>, evaluated left to right.
\<close>

definition matchesQ_B :: "string \<Rightarrow> Project \<Rightarrow> JsError + bool" where
  "matchesQ_B qq p =
     (if qq = [] then Inr True
      else (case name p of
              None \<Rightarrow> Inl TypeError
            | Some n \<Rightarrow>
                if includes_str (toLowerCase n) qq then Inr True
                else (case owner p of
                        None \<Rightarrow> Inl TypeError
                      | Some ow \<Rightarrow>
                          Inr (includes_str (toLowerCase ow) qq
                               \<or> includes_str (String_num (pid p)) qq))))"

definition keeps_B :: "string \<Rightarrow> StatusFilter \<Rightarrow> Project \<Rightarrow> JsError + bool" where
  "keeps_B qq st p =
     (case matchesQ_B qq p of
        Inl e \<Rightarrow> Inl e
      | Inr matchesQ \<Rightarrow>
          (let matchesStatus = (case st of AllStatuses \<Rightarrow> True | Only s \<Rightarrow> status p = Some s)
           in Inr (matchesQ \<and> matchesStatus)))"

text \<open>\<^verbatim>\<open>items.filter\<close> with a callback that can throw.\<close>

fun filterE :: "('a \<Rightarrow> JsError + bool) \<Rightarrow> 'a list \<Rightarrow> JsError + 'a list" where
  "filterE f [] = Inr []"
| "filterE f (x # xs) =
     (case f x of
        Inl e \<Rightarrow> Inl e
      | Inr b \<Rightarrow> (case filterE f xs of Inl e \<Rightarrow> Inl e | Inr ys \<Rightarrow> Inr (if b then x # ys else ys)))"

definition sortVal_B :: "(string \<Rightarrow> jsnum) \<Rightarrow> SortKey_B \<Rightarrow> Project \<Rightarrow> jsnum" where
  "sortVal_B getTime srt p =
     (case srt of
        Sort_createdAt \<Rightarrow> (case createdAt p of None \<Rightarrow> None | Some s \<Rightarrow> getTime s)
      | Sort_budget \<Rightarrow> budget p
      | Sort_spent \<Rightarrow> spent p)"

definition sortCmp_B :: "(string \<Rightarrow> jsnum) \<Rightarrow> SortKey_B \<Rightarrow> SortDir \<Rightarrow> Project \<Rightarrow> Project \<Rightarrow> int" where
  "sortCmp_B getTime srt dir a b =
     (let av = sortVal_B getTime srt a; bv = sortVal_B getTime srt b
      in nanToZero (if dir = Asc then sub_js av bv else sub_js bv av))"

definition filterStage_B :: "Project list \<Rightarrow> string \<Rightarrow> StatusFilter \<Rightarrow> JsError + Project list" where
  "filterStage_B data q st = (let qq = toLowerCase (trim q) in filterE (keeps_B qq st) data)"

definition filteredSorted ::
  "(string \<Rightarrow> jsnum) \<Rightarrow> Project list \<Rightarrow> string \<Rightarrow> StatusFilter \<Rightarrow> SortKey_B \<Rightarrow> SortDir
     \<Rightarrow> JsError + Project list" where
  "filteredSorted getTime data q st srt dir =
     (case filterStage_B data q st of
        Inl e \<Rightarrow> Inl e
      | Inr filtered \<Rightarrow> Inr (js_sort (sortCmp_B getTime srt dir) filtered))"

definition safePage_B :: "int \<Rightarrow> nat \<Rightarrow> int \<Rightarrow> int" where
  "safePage_B pageSize n pg = clamp pg 1 (totalPages pageSize n)"

definition pageItems :: "int \<Rightarrow> 'a list \<Rightarrow> int \<Rightarrow> 'a list" where
  "pageItems pageSize list pg =
     (let sp = safePage_B pageSize (length list) pg
      in slice list ((sp - 1) * pageSize) (sp * pageSize))"



record Bar_B =
  barB_name :: "string option"
  barB_budget :: "int option"
  barB_spent :: "int option"

definition budgetCmp_B :: "Project \<Rightarrow> Project \<Rightarrow> int" where
  "budgetCmp_B a b = nanToZero (sub_js (budget b) (budget a))"

definition budgetBars :: "Project list \<Rightarrow> Bar_B list" where
  "budgetBars list =
     map (\<lambda>p. \<lparr>barB_name = name p, barB_budget = budget p, barB_spent = spent p\<rparr>)
       (slice (js_sort budgetCmp_B list) 0 6)"

record UiState_B =
  q_B :: string
  status_B :: StatusFilter
  sort_B :: SortKey_B
  dir_B :: SortDir
  page_B :: int

definition pageSize_B :: int where
  "pageSize_B = 6"

definition initial_B :: UiState_B where
  "initial_B = \<lparr>q_B = [], status_B = AllStatuses, sort_B = Sort_createdAt, dir_B = Desc, page_B = 1\<rparr>"

datatype Event_B =
    SetQ string
  | SetStatus StatusFilter
  | SetSort SortKey_B
  | ToggleDir
  | Prev_B
  | Next_B

text \<open>The handlers of variant B; there is no effect.\<close>

definition step_B :: "int \<Rightarrow> Event_B \<Rightarrow> UiState_B \<Rightarrow> UiState_B" where
  "step_B tp ev st =
     (case ev of
        SetQ s \<Rightarrow> st\<lparr>q_B := s, page_B := 1\<rparr>
      | SetStatus f \<Rightarrow> st\<lparr>status_B := f, page_B := 1\<rparr>
      | SetSort k \<Rightarrow> st\<lparr>sort_B := k\<rparr>
      | ToggleDir \<Rightarrow> st\<lparr>dir_B := (if dir_B st = Asc then Desc else Asc)\<rparr>
      | Prev_B \<Rightarrow> st\<lparr>page_B := max 1 (page_B st - 1)\<rparr>
      | Next_B \<Rightarrow> st\<lparr>page_B := min tp (page_B st + 1)\<rparr>)"

subsection \<open>Arrays and records in a store\<close>

text \<open>
  Where aliasing matters the arrays live in a store: a record object and an array
  are reached through references, an array holds references to records, and
  \<open>fresh\<close> is the next unused array reference. \<^verbatim>\<open>filter\<close>, \<^verbatim>\<open>slice\<close> and the
  spread \<^verbatim>\<open>[...xs]\<close> allocate a new array; \<^verbatim>\<open>sort\<close> overwrites the array it is
  called on and returns the same reference. No stage of the pipeline assigns to a
  field of a record, so no operation below writes \<open>objs\<close>.
\<close>

type_synonym ref = nat

record Store =
  objs :: "ref \<Rightarrow> Project"
  arrs :: "ref \<Rightarrow> ref list"
  fresh :: ref

definition alloc :: "Store \<Rightarrow> ref list \<Rightarrow> Store \<times> ref" where
  "alloc h rs = (h\<lparr>arrs := (arrs h)(fresh h := rs), fresh := Suc (fresh h)\<rparr>, fresh h)"

text \<open>The records an array holds, in order.\<close>

definition contents :: "Store \<Rightarrow> ref \<Rightarrow> Project list" where
  "contents h a = map (objs h) (arrs h a)"

definition array_filter :: "(Project \<Rightarrow> bool) \<Rightarrow> Store \<Rightarrow> ref \<Rightarrow> Store \<times> ref" where
  "array_filter P h a = alloc h (filter (\<lambda>r. P (objs h r)) (arrs h a))"

definition array_slice :: "Store \<Rightarrow> ref \<Rightarrow> int \<Rightarrow> int \<Rightarrow> Store \<times> ref" where
  "array_slice h a i j = alloc h (slice (arrs h a) i j)"

text \<open>\<^verbatim>\<open>[...xs]\<close> and \<^verbatim>\<open>xs.slice()\<close>\<close>

definition array_copy :: "Store \<Rightarrow> ref \<Rightarrow> Store \<times> ref" where
  "array_copy h a = alloc h (arrs h a)"

definition array_sort :: "(Project \<Rightarrow> Project \<Rightarrow> int) \<Rightarrow> Store \<Rightarrow> ref \<Rightarrow> Store" where
  "array_sort c h a =
     h\<lparr>arrs := (arrs h)(a := js_sort (\<lambda>r s. c (objs h r) (objs h s)) (arrs h a))\<rparr>"

text \<open>Variant A: \<^verbatim>\<open>projects.filter(...)\<close>, then \<^verbatim>\<open>list.sort(...)\<close> on the result.\<close>

definition filteredProjects_st ::
  "(string \<Rightarrow> string \<Rightarrow> int) \<Rightarrow> Store \<Rightarrow> ref \<Rightarrow> string \<Rightarrow> StatusFilter \<Rightarrow> SortKey \<Rightarrow> SortDir
     \<Rightarrow> Store \<times> ref" where
  "filteredProjects_st lc h projects qry sf k d =
     (let q = normalize (Some qry);
          (h1, list) = array_filter (keeps q sf) h projects;
          h2 = array_sort (sortCmp lc k d) h1 list
      in (h2, list))"

definition pagedProjects_st :: "int \<Rightarrow> Store \<Rightarrow> ref \<Rightarrow> int \<Rightarrow> Store \<times> ref" where
  "pagedProjects_st pageSize h list pg =
     (let start = (safePage pageSize (length (arrs h list)) pg - 1) * pageSize
      in array_slice h list start (start + pageSize))"

text \<open>
  \<^verbatim>\<open>[...projects].sort(...).slice(0, 6).map(...)\<close>; the bars that \<^verbatim>\<open>map\<close> creates are
  new objects of another type and are returned as values.
\<close>

definition topBudget_st :: "Store \<Rightarrow> ref \<Rightarrow> Store \<times> Bar list" where
  "topBudget_st h projects =
     (let (h1, c) = array_copy h projects;
          h2 = array_sort budgetCmp h1 c;
          (h3, t) = array_slice h2 c 0 6
      in (h3,
          map (\<lambda>p. \<lparr>bar_id = pid p, bar_name = name p, bar_budget = budget0 p,
                    bar_spent = spent0 p\<rparr>)
            (contents h3 t)))"

text \<open>
  One recomputation of variant A: filter and sort, the KPIs, the page, then the
  charts of the child component. It returns the final store, the reference of the
  filtered and sorted array, the reference of the page, and the aggregates.
\<close>

definition recompute_st ::
  "(string \<Rightarrow> string \<Rightarrow> int) \<Rightarrow> Store \<Rightarrow> ref \<Rightarrow> UiState
     \<Rightarrow> Store \<times> ref \<times> ref \<times> KPIValues \<times> (string \<times> nat) list \<times> Bar list" where
  "recompute_st lc h projects st =
     (let (h1, fp) = filteredProjects_st lc h projects (query st) (statusFilter st) (sortKey st)
                       (sortDir st);
          kp = kpiValues (contents h1 fp);
          (h2, rows) = pagedProjects_st pageSize_A h1 fp (page st);
          (h3, top) = topBudget_st h2 fp;
          sd = countByStatus (contents h3 fp)
      in (h3, fp, rows, kp, sd, top))"

text \<open>
  Variant B: \<^verbatim>\<open>(data ?? []).slice()\<close>, \<^verbatim>\<open>items.filter(...)\<close>, \<^verbatim>\<open>filtered.sort(...)\<close>.
  When the filter callback throws, the copy has been allocated and nothing else.
\<close>

definition filteredSorted_st ::
  "(string \<Rightarrow> jsnum) \<Rightarrow> Store \<Rightarrow> ref \<Rightarrow> string \<Rightarrow> StatusFilter \<Rightarrow> SortKey_B \<Rightarrow> SortDir
     \<Rightarrow> Store \<times> (JsError + ref)" where
  "filteredSorted_st getTime h data q sf srt dir =
     (let (h1, items) = array_copy h data;
          qq = toLowerCase (trim q)
      in case filterE (\<lambda>r. keeps_B qq sf (objs h1 r)) (arrs h1 items) of
           Inl e \<Rightarrow> (h1, Inl e)
         | Inr kept \<Rightarrow>
             (let (h2, filtered) = alloc h1 kept;
                  h3 = array_sort (sortCmp_B getTime srt dir) h2 filtered
              in (h3, Inr filtered)))"

text \<open>\<^verbatim>\<open>filteredSorted.slice().sort(...).slice(0, 6).map(...)\<close>\<close>

definition budgetBars_st :: "Store \<Rightarrow> ref \<Rightarrow> Store \<times> Bar_B list" where
  "budgetBars_st h list =
     (let (h1, c) = array_copy h list;
          h2 = array_sort budgetCmp_B h1 c;
          (h3, t) = array_slice h2 c 0 6
      in (h3,
          map (\<lambda>p. \<lparr>barB_name = name p, barB_budget = budget p, barB_spent = spent p\<rparr>)
            (contents h3 t)))"

definition recompute_B_st ::
  "(string \<Rightarrow> jsnum) \<Rightarrow> Store \<Rightarrow> ref \<Rightarrow> UiState_B
     \<Rightarrow> Store \<times> (JsError + ref \<times> ref \<times> Bar_B list)" where
  "recompute_B_st getTime h data st =
     (case filteredSorted_st getTime h data (q_B st) (status_B st) (sort_B st) (dir_B st) of
        (h1, Inl e) \<Rightarrow> (h1, Inl e)
      | (h1, Inr fs) \<Rightarrow>
          (let sp = safePage_B pageSize_B (length (arrs h1 fs)) (page_B st);
               (h2, rows) = array_slice h1 fs ((sp - 1) * pageSize_B) (sp * pageSize_B);
               (h3, bars) = budgetBars_st h2 fs
           in (h3, Inr (fs, rows, bars))))"

text \<open>
  \<open>extends h h'\<close>: going from \<open>h\<close> to \<open>h'\<close> no record and no array that \<open>h\<close> had
  allocated has changed; arrays may have been added.
\<close>

definition extends :: "Store \<Rightarrow> Store \<Rightarrow> bool" where
  "extends h h' \<longleftrightarrow>
     objs h' = objs h \<and> fresh h \<le> fresh h' \<and> (\<forall>a<fresh h. arrs h' a = arrs h a)"

subsection \<open>Sample data\<close>

text \<open>A stand-in for the host's collation where a concrete one is needed: by character code.\<close>

definition ordinalCompare :: "string \<Rightarrow> string \<Rightarrow> int" where
  "ordinalCompare a b = (if a < b then - 1 else if a = b then 0 else 1)"

text \<open>A record with every field present.\<close>

definition project ::
  "int \<Rightarrow> string \<Rightarrow> ProjectStatus \<Rightarrow> string \<Rightarrow> int \<Rightarrow> int \<Rightarrow> string \<Rightarrow> Project" where
  "project i n s ow b sp c =
     \<lparr>pid = i, name = Some n, status = Some s, owner = Some ow, budget = Some b, spent = Some sp,
      createdAt = Some c\<rparr>"

text \<open>
  Seven records, four of them active, with the budgets 100, 200, 300, 0, 50, 75, 125
  and amounts spent that add up to 500.
\<close>

definition scenarioA :: "Project list" where
  "scenarioA =
     [project 1 ''Apollo'' ACTIVE ''Ana'' 100 50 ''2026-01-01'',
      project 2 ''Borealis'' ACTIVE ''Bogdan'' 200 100 ''2026-01-02'',
      project 3 ''Cobalt'' PAUSED ''Carmen'' 300 200 ''2026-01-03'',
      project 4 ''Delta'' DONE ''Dan'' 0 0 ''2026-01-04'',
      project 5 ''Echo'' ACTIVE ''Elena'' 50 25 ''2026-01-05'',
      project 6 ''Fjord'' DONE ''Florin'' 75 50 ''2026-01-06'',
      project 7 ''Gamma'' ACTIVE ''Gabi'' 125 75 ''2026-01-07'']"

text \<open>Twelve records that differ in their ids only.\<close>

definition twelve :: "Project list" where
  "twelve = map (\<lambda>i. project i ''P'' ACTIVE ''Ana'' 10 5 ''2026-01-01'') [1..12]"



text \<open>Two records that share the budget 200, with the ids 3 and 7, and one in between.\<close>

definition scenarioD :: "Project list" where
  "scenarioD =
     [project 3 ''Delta'' ACTIVE ''Dan'' 200 10 ''2026-02-01'',
      project 9 ''Alpha'' PAUSED ''Ana'' 500 20 ''2026-02-02'',
      project 7 ''Delta'' DONE ''Dan'' 200 30 ''2026-02-03'']"

text \<open>A record whose name ends in a blank.\<close>

definition padded :: Project where
  "padded = project 1 ''foo '' ACTIVE ''bar'' 10 5 ''2026-01-01''"

subsection \<open>The filter stage as the specification words it\<close>

text \<open>
  The specification's text predicate, for comparison with \<open>keeps\<close> and \<open>keeps_B\<close>:
  the query is trimmed and case-folded; the haystack is the case-folded,
  whitespace-joined concatenation of name, owner, stringified id, status label,
  stringified budget, stringified spent and creation date. A missing field
  contributes the empty string.
\<close>

definition spec_hay :: "Project \<Rightarrow> string" where
  "spec_hay p =
     toLowerCase
       (join '' ''
          [case name p of None \<Rightarrow> [] | Some s \<Rightarrow> s,
           case owner p of None \<Rightarrow> [] | Some s \<Rightarrow> s,
           String_num (pid p),
           case status p of None \<Rightarrow> [] | Some s \<Rightarrow> statusLabel s,
           String_amount (budget p),
           String_amount (spent p),
           case createdAt p of None \<Rightarrow> [] | Some s \<Rightarrow> s])"

definition spec_keeps :: "string \<Rightarrow> StatusFilter \<Rightarrow> Project \<Rightarrow> bool" where
  "spec_keeps qry sf p \<longleftrightarrow>
     (toLowerCase (trim qry) = [] \<or> includes_str (spec_hay p) (toLowerCase (trim qry)))
     \<and> (case sf of AllStatuses \<Rightarrow> True | Only s \<Rightarrow> status p = Some s)"

definition spec_filter :: "Project list \<Rightarrow> string \<Rightarrow> StatusFilter \<Rightarrow> Project list" where
  "spec_filter projects qry sf = filter (spec_keeps qry sf) projects"

text \<open>A store with one array, at reference 0, of the three records of \<open>scenarioD\<close>.\<close>

definition store0 :: Store where
  "store0 =
     \<lparr>objs = (\<lambda>r. if r = 0 then scenarioD ! 0 else if r = 1 then scenarioD ! 1 else scenarioD ! 2),
      arrs = (\<lambda>a. if a = 0 then [0, 1, 2] else []),
      fresh = 1\<rparr>"

section \<open>Verification\<close>

subsection \<open>Host arithmetic and slices\<close>

lemma Math_ceil_div: "Math_ceil (of_nat n / of_int ps) = - (- int n div ps)"
proof -
  have "(of_nat n :: rat) / of_int ps = of_int (int n) / of_int ps" by simp
  then show ?thesis unfolding Math_ceil_def by (simp only: ceiling_divide_eq_div)
qed

lemma totalPages_div: "totalPages ps n = max 1 (- (- int n div ps))"
  by (simp only: totalPages_def Math_ceil_div)

lemma totalPages_ge1: "1 \<le> totalPages ps n"
  by (simp add: totalPages_def)

lemma slice_nonneg:
  "0 \<le> i \<Longrightarrow> 0 \<le> j \<Longrightarrow> slice xs i (i + j) = take (nat j) (drop (nat i) xs)"
  unfolding slice_def Let_def
  by (cases "i \<le> int (length xs)") (auto simp: min_def nat_diff_distrib' nat_add_distrib)


subsection \<open>Doubles\<close>



lemma powi2_Suc: "(2::rat) powi (e + 1) = 2 * 2 powi e"
  by (simp add: power_int_add)

lemma powi2_pred: "(2::rat) powi (e - 1) = 2 powi e / 2"
  by (simp add: power_int_diff)









subsection \<open>KPI totals\<close>

lemma foldl_add_sum: "foldl (\<lambda>s p. s + f p) a xs = a + sum_list (map f xs)" for a :: int
  by (induction xs arbitrary: a) simp_all

lemma kpi_totalBudget: "totalBudget (kpiValues xs) = sum_list (map budget0 xs)"
  by (simp add: kpiValues_def Let_def foldl_add_sum)














subsection \<open>Pagination\<close>




subsection \<open>The sort of the host\<close>

lemma mset_insertBy: "mset (insertBy c x ys) = add_mset x (mset ys)"
  by (induction ys) simp_all

lemma mset_js_sort: "mset (js_sort c xs) = mset xs"
  unfolding js_sort_def by (induction xs) (simp_all add: mset_insertBy)

lemma set_js_sort: "set (js_sort c xs) = set xs"
  using mset_js_sort[of c xs] by (metis set_mset_mset)

lemma length_js_sort: "length (js_sort c xs) = length xs"
  using mset_js_sort[of c xs] by (metis size_mset)

lemma js_sort_Nil: "js_sort c [] = []"
  by (simp add: js_sort_def)

lemma js_sort_Cons: "js_sort c (x # xs) = insertBy c x (js_sort c xs)"
  by (simp add: js_sort_def)

lemma insertBy_front: "(ys \<noteq> [] \<Longrightarrow> c x (hd ys) \<le> 0) \<Longrightarrow> insertBy c x ys = x # ys"
  by (cases ys) simp_all

lemma insertBy_pass: "\<forall>m\<in>set ms. 0 < c x m \<Longrightarrow> insertBy c x (ms @ ps) = ms @ insertBy c x ps"
  by (induction ms) simp_all

lemma insertBy_stop: "\<forall>m\<in>set ms. c x m \<le> 0 \<Longrightarrow> insertBy c x (ps @ ms) = insertBy c x ps @ ms"
proof (induction ps)
  case Nil
  then show ?case by (cases ms) simp_all
next
  case (Cons p ps)
  then show ?case by simp
qed

lemma insertBy_cong:
  "\<forall>y\<in>set ys. c x y = c' x y \<Longrightarrow> insertBy c x ys = insertBy c' x ys"
  by (induction ys) simp_all

lemma js_sort_cong:
  "\<forall>a\<in>set xs. \<forall>b\<in>set xs. c a b = c' a b \<Longrightarrow> js_sort c xs = js_sort c' xs"
proof (induction xs)
  case Nil
  then show ?case by (simp add: js_sort_Nil)
next
  case (Cons x xs)
  then have "js_sort c xs = js_sort c' xs" by simp
  moreover have "\<forall>y\<in>set (js_sort c' xs). c x y = c' x y"
    using Cons.prems by (simp add: set_js_sort)
  ultimately show ?case by (simp add: js_sort_Cons insertBy_cong)
qed

text \<open>Stability: the elements equivalent to \<open>z\<close> keep their order.\<close>

lemma filter_insertBy:
  assumes sym: "\<And>a b. c a b = 0 \<Longrightarrow> c b a = 0"
    and trans: "\<And>a b d. c a b = 0 \<Longrightarrow> c b d = 0 \<Longrightarrow> c a d = 0"
  shows "filter (\<lambda>y. c z y = 0) (insertBy c x ys)
           = (if c z x = 0 then x # filter (\<lambda>y. c z y = 0) ys else filter (\<lambda>y. c z y = 0) ys)"
proof (induction ys)
  case Nil
  show ?case by simp
next
  case (Cons y ys)
  show ?case
  proof (cases "c x y \<le> 0")
    case True
    then show ?thesis by simp
  next
    case False
    have "\<not> (c z x = 0 \<and> c z y = 0)"
    proof
      assume h: "c z x = 0 \<and> c z y = 0"
      then have "c x z = 0" using sym by blast
      then have "c x y = 0" using h trans by blast
      with False show False by simp
    qed
    with False Cons.IH show ?thesis by auto
  qed
qed

lemma js_sort_stable:
  assumes sym: "\<And>a b. c a b = 0 \<Longrightarrow> c b a = 0"
    and trans: "\<And>a b d. c a b = 0 \<Longrightarrow> c b d = 0 \<Longrightarrow> c a d = 0"
  shows "filter (\<lambda>y. c z y = 0) (js_sort c xs) = filter (\<lambda>y. c z y = 0) xs"
proof (induction xs)
  case Nil
  show ?case by (simp add: js_sort_Nil)
next
  case (Cons x xs)
  show ?case
    unfolding js_sort_Cons
    by (subst filter_insertBy[of c, OF sym trans]) (simp_all add: Cons.IH)
qed

text \<open>For a comparator that is the difference of a key, \<open>js_sort\<close> is the library's stable sort.\<close>

lemma insertBy_key: "insertBy (\<lambda>a b. f a - f b) x ys = insort_key f x ys" for f :: "'a \<Rightarrow> int"
  by (induction ys) simp_all

lemma js_sort_key: "js_sort (\<lambda>a b. f a - f b) xs = sort_key f xs" for f :: "'a \<Rightarrow> int"
  by (induction xs) (simp_all add: js_sort_Nil js_sort_Cons insertBy_key)

text \<open>For a consistent comparator the result is sorted: no element has to follow a later one.\<close>

lemma consistent_flip:
  assumes "consistentCompare c" "0 < c x y"
  shows "c y x < 0"
proof (rule ccontr)
  assume "\<not> c y x < 0"
  then consider "c y x = 0" | "0 < c y x" by linarith
  then show False
  proof cases
    case 1
    then have "c x y = 0" using assms(1) unfolding consistentCompare_def by blast
    with assms(2) show False by simp
  next
    case 2
    with assms(2) have "0 < c x x" using assms(1) unfolding consistentCompare_def by blast
    moreover have "c x x = 0" using assms(1) unfolding consistentCompare_def by blast
    ultimately show False by simp
  qed
qed

lemma consistent_flip_neg:
  assumes "consistentCompare c" "c x y < 0"
  shows "0 < c y x"
proof (rule ccontr)
  assume "\<not> 0 < c y x"
  then consider "c y x = 0" | "c y x < 0" by linarith
  then show False
  proof cases
    case 1
    then have "c x y = 0" using assms(1) unfolding consistentCompare_def by blast
    with assms(2) show False by simp
  next
    case 2
    with assms(2) have "c x x < 0" using assms(1) unfolding consistentCompare_def by blast
    moreover have "c x x = 0" using assms(1) unfolding consistentCompare_def by blast
    ultimately show False by simp
  qed
qed

lemma consistent_le_trans:
  assumes cc: "consistentCompare c" and ab: "c a b \<le> 0" and bd: "c b d \<le> 0"
  shows "c a d \<le> 0"
proof (rule ccontr)
  assume "\<not> c a d \<le> 0"
  then have ad: "0 < c a d" by simp
  have da: "c d a < 0" using cc ad by (rule consistent_flip)
  have eqt: "\<And>x y z. c x y = 0 \<Longrightarrow> c y z = 0 \<Longrightarrow> c x z = 0"
    and sym: "\<And>x y. c x y = 0 \<Longrightarrow> c y x = 0"
    and ltt: "\<And>x y z. c x y < 0 \<Longrightarrow> c y z < 0 \<Longrightarrow> c x z < 0"
    and gtt: "\<And>x y z. 0 < c x y \<Longrightarrow> 0 < c y z \<Longrightarrow> 0 < c x z"
    and refl: "\<And>x. c x x = 0"
    using cc unfolding consistentCompare_def by blast+
  show False
  proof (cases "c a b = 0")
    case True
    show ?thesis
    proof (cases "c b d = 0")
      case True
      with \<open>c a b = 0\<close> have "c a d = 0" using eqt by blast
      with ad show False by simp
    next
      case False
      with bd have "c b d < 0" by simp
      with da have "c b a < 0" using ltt by blast
      moreover have "c b a = 0" using True sym by blast
      ultimately show False by simp
    qed
  next
    case False
    with ab have lab: "c a b < 0" by simp
    with da have "c d b < 0" using ltt by blast
    with cc have "0 < c b d" by (rule consistent_flip_neg)
    with bd show False by simp
  qed
qed

lemma set_insertBy: "set (insertBy c x ys) = insert x (set ys)"
  using mset_insertBy[of c x ys] by (metis set_mset_add_mset_insert set_mset_mset)

lemma sorted_insertBy:
  assumes "consistentCompare c" "sorted_wrt (\<lambda>a b. c a b \<le> 0) ys"
  shows "sorted_wrt (\<lambda>a b. c a b \<le> 0) (insertBy c x ys)"
  using assms(2)
proof (induction ys)
  case Nil
  show ?case by simp
next
  case (Cons y ys)
  show ?case
  proof (cases "c x y \<le> 0")
    case True
    have "\<forall>z\<in>set ys. c x z \<le> 0"
      using True Cons.prems consistent_le_trans[OF assms(1)] by auto
    with True Cons.prems show ?thesis by simp
  next
    case False
    then have "c y x \<le> 0" using consistent_flip[OF assms(1), of x y] by simp
    with False Cons show ?thesis by (simp add: set_insertBy)
  qed
qed

lemma sorted_js_sort:
  "consistentCompare c \<Longrightarrow> sorted_wrt (\<lambda>a b. c a b \<le> 0) (js_sort c xs)"
  by (induction xs) (simp_all add: js_sort_Nil js_sort_Cons sorted_insertBy)

subsection \<open>The sort stage of variant A\<close>

lemma compare_null:
  "compare lc JNull JNull = 0"
  "compare lc JNull (JNum n) = - 1" "compare lc JNull (JStr s) = - 1"
  "compare lc (JNum n) JNull = 1" "compare lc (JStr s) JNull = 1"
  by (simp_all add: compare_def)

lemma compare_missing:
  "a = JNull \<Longrightarrow> b = JNull \<Longrightarrow> compare lc a b = 0"
  "a = JNull \<Longrightarrow> b \<noteq> JNull \<Longrightarrow> compare lc a b = - 1"
  "a \<noteq> JNull \<Longrightarrow> b = JNull \<Longrightarrow> compare lc a b = 1"
  by (simp_all add: compare_def)

lemma sortCmp_Desc: "sortCmp lc k Desc a b = - sortCmp lc k Asc a b"
  by (simp add: sortCmp_def Let_def)

lemma sortCmp_Asc: "sortCmp lc k Asc a b = compare lc (field k a) (field k b)"
  by (simp add: sortCmp_def Let_def)

lemma missing_first_Asc:
  "sortStage lc k Asc xs
     = filter (\<lambda>p. field k p = JNull) xs
       @ sortStage lc k Asc (filter (\<lambda>p. field k p \<noteq> JNull) xs)"
proof (induction xs)
  case Nil
  show ?case by (simp add: sortStage_def js_sort_Nil)
next
  case (Cons x xs)
  let ?c = "sortCmp lc k Asc"
  let ?M = "filter (\<lambda>p. field k p = JNull) xs"
  let ?S = "js_sort ?c (filter (\<lambda>p. field k p \<noteq> JNull) xs)"
  have IH: "js_sort ?c xs = ?M @ ?S" using Cons.IH by (simp add: sortStage_def)
  show ?case
  proof (cases "field k x = JNull")
    case True
    have "\<forall>y\<in>set (?M @ ?S). ?c x y \<le> 0"
      using True by (auto simp: sortCmp_Asc set_js_sort compare_missing)
    then have "insertBy ?c x (?M @ ?S) = x # ?M @ ?S"
      by (intro insertBy_front) (metis hd_in_set)
    then show ?thesis using True IH by (simp add: sortStage_def js_sort_Cons)
  next
    case False
    have "\<forall>m\<in>set ?M. 0 < ?c x m"
      using False by (auto simp: sortCmp_Asc compare_missing)
    then have "insertBy ?c x (?M @ ?S) = ?M @ insertBy ?c x ?S"
      by (rule insertBy_pass)
    then show ?thesis using False IH by (simp add: sortStage_def js_sort_Cons)
  qed
qed

lemma missing_last_Desc:
  "sortStage lc k Desc xs
     = sortStage lc k Desc (filter (\<lambda>p. field k p \<noteq> JNull) xs)
       @ filter (\<lambda>p. field k p = JNull) xs"
proof (induction xs)
  case Nil
  show ?case by (simp add: sortStage_def js_sort_Nil)
next
  case (Cons x xs)
  let ?c = "sortCmp lc k Desc"
  let ?M = "filter (\<lambda>p. field k p = JNull) xs"
  let ?S = "js_sort ?c (filter (\<lambda>p. field k p \<noteq> JNull) xs)"
  have IH: "js_sort ?c xs = ?S @ ?M" using Cons.IH by (simp add: sortStage_def)
  show ?case
  proof (cases "field k x = JNull")
    case True
    have "\<forall>p\<in>set ?S. 0 < ?c x p"
      using True by (auto simp: sortCmp_Desc sortCmp_Asc set_js_sort compare_missing)
    then have "insertBy ?c x (?S @ ?M) = ?S @ insertBy ?c x ?M"
      by (rule insertBy_pass)
    moreover have "\<forall>y\<in>set ?M. ?c x y \<le> 0"
      using True by (auto simp: sortCmp_Desc sortCmp_Asc compare_missing)
    then have "insertBy ?c x ?M = x # ?M"
      by (intro insertBy_front) (metis hd_in_set)
    ultimately show ?thesis using True IH by (simp add: sortStage_def js_sort_Cons)
  next
    case False
    have "\<forall>m\<in>set ?M. ?c x m \<le> 0"
      using False by (auto simp: sortCmp_Desc sortCmp_Asc compare_missing)
    then have "insertBy ?c x (?S @ ?M) = insertBy ?c x ?S @ ?M"
      by (rule insertBy_stop)
    then show ?thesis using False IH by (simp add: sortStage_def js_sort_Cons)
  qed
qed

text \<open>
  Claim C5. The comparator puts a missing value below every present value, the
  descending comparator is the negation of the ascending one, missing-value rule
  included, and so for every input list the records whose key is missing come
  first, in input order, when sorting ascending and last when sorting descending.
\<close>

theorem missing_values_order:
  "compare lc JNull JNull = 0
   \<and> compare lc JNull (JNum n) = - 1 \<and> compare lc JNull (JStr s) = - 1
   \<and> compare lc (JNum n) JNull = 1 \<and> compare lc (JStr s) JNull = 1
   \<and> sortCmp lc k Desc a b = - sortCmp lc k Asc a b
   \<and> sortStage lc k Asc xs
       = filter (\<lambda>p. field k p = JNull) xs
         @ sortStage lc k Asc (filter (\<lambda>p. field k p \<noteq> JNull) xs)
   \<and> sortStage lc k Desc xs
       = sortStage lc k Desc (filter (\<lambda>p. field k p \<noteq> JNull) xs)
         @ filter (\<lambda>p. field k p = JNull) xs"
  using compare_null[of lc] sortCmp_Desc missing_first_Asc missing_last_Desc by blast


lemma field_shape:
  "(\<forall>p. field k p = JNull \<or> (\<exists>n. field k p = JNum n))
   \<or> (\<forall>p. field k p = JNull \<or> (\<exists>s. field k p = JStr s))"
  by (cases k) (auto simp: field_def split: option.splits)

lemma sortCmp_zero_iff: "sortCmp lc k d a b = 0 \<longleftrightarrow> compare lc (field k a) (field k b) = 0"
  by (simp add: sortCmp_def Let_def)

lemma sortCmp_sym:
  assumes "consistentCompare lc" "sortCmp lc k d a b = 0"
  shows "sortCmp lc k d b a = 0"
proof -
  have sym: "\<And>s t. lc s t = 0 \<Longrightarrow> lc t s = 0"
    using assms(1) unfolding consistentCompare_def by blast
  from assms(2) have "compare lc (field k a) (field k b) = 0" by (simp add: sortCmp_zero_iff)
  then have "compare lc (field k b) (field k a) = 0"
    using field_shape[of k] sym
    by (cases "field k a"; cases "field k b") (auto simp: compare_def split: if_splits)
  then show ?thesis by (simp add: sortCmp_zero_iff)
qed

lemma sortCmp_trans:
  assumes "consistentCompare lc" "sortCmp lc k d a b = 0" "sortCmp lc k d b e = 0"
  shows "sortCmp lc k d a e = 0"
proof -
  have trans: "\<And>s t u. lc s t = 0 \<Longrightarrow> lc t u = 0 \<Longrightarrow> lc s u = 0"
    using assms(1) unfolding consistentCompare_def by blast
  from assms(2,3) have "compare lc (field k a) (field k b) = 0" "compare lc (field k b) (field k e) = 0"
    by (simp_all add: sortCmp_zero_iff)
  then have "compare lc (field k a) (field k e) = 0"
  proof -
    assume ab: "compare lc (field k a) (field k b) = 0"
      and be: "compare lc (field k b) (field k e) = 0"
    from field_shape[of k] show ?thesis
    proof
      assume "\<forall>p. field k p = JNull \<or> (\<exists>n. field k p = JNum n)"
      then have "field k a = JNull \<or> (\<exists>n. field k a = JNum n)"
        "field k b = JNull \<or> (\<exists>n. field k b = JNum n)"
        "field k e = JNull \<or> (\<exists>n. field k e = JNum n)" by blast+
      with ab be show ?thesis by (auto simp: compare_def split: if_splits)
    next
      assume "\<forall>p. field k p = JNull \<or> (\<exists>s. field k p = JStr s)"
      then have "field k a = JNull \<or> (\<exists>s. field k a = JStr s)"
        "field k b = JNull \<or> (\<exists>s. field k b = JStr s)"
        "field k e = JNull \<or> (\<exists>s. field k e = JStr s)" by blast+
      with ab be trans show ?thesis by (auto simp: compare_def split: if_splits)
    qed
  qed
  then show ?thesis by (simp add: sortCmp_zero_iff)
qed

lemma numeric_key_shape:
  "k = Key_budget \<or> k = Key_spent \<Longrightarrow> field k p = JNull \<or> (\<exists>n. field k p = JNum n)"
  by (auto simp: field_def split: option.splits)

lemma sortCmp_numeric_sym:
  assumes "k = Key_budget \<or> k = Key_spent" "sortCmp lc k d a b = 0"
  shows "sortCmp lc k d b a = 0"
proof -
  from assms(2) have "compare lc (field k a) (field k b) = 0" by (simp add: sortCmp_zero_iff)
  then have "compare lc (field k b) (field k a) = 0"
    using numeric_key_shape[OF assms(1), of a] numeric_key_shape[OF assms(1), of b]
    by (auto simp: compare_def split: if_splits)
  then show ?thesis by (simp add: sortCmp_zero_iff)
qed

lemma sortCmp_numeric_trans:
  assumes "k = Key_budget \<or> k = Key_spent" "sortCmp lc k d a b = 0" "sortCmp lc k d b e = 0"
  shows "sortCmp lc k d a e = 0"
proof -
  from assms(2,3) have "compare lc (field k a) (field k b) = 0" "compare lc (field k b) (field k e) = 0"
    by (simp_all add: sortCmp_zero_iff)
  then have "compare lc (field k a) (field k e) = 0"
    using numeric_key_shape[OF assms(1), of a] numeric_key_shape[OF assms(1), of b]
      numeric_key_shape[OF assms(1), of e]
    by (auto simp: compare_def split: if_splits)
  then show ?thesis by (simp add: sortCmp_zero_iff)
qed

lemma consistent_ordinalCompare: "consistentCompare ordinalCompare"
  unfolding consistentCompare_def ordinalCompare_def by (auto split: if_splits)

text \<open>
  Claim C6. For every input list, sort key and direction the output of the sort stage
  is a permutation of its input. It is stable in both directions: for every record
  \<open>z\<close>, the records that compare equal to \<open>z\<close> under the active key appear in the output
  in their input order. This holds for the numeric keys outright and for the text
  keys when the host's collation is a consistent comparator.
\<close>

theorem sort_permutation_stable:
  "mset (sortStage lc k d xs) = mset xs
   \<and> (consistentCompare lc \<or> k = Key_budget \<or> k = Key_spent \<longrightarrow>
        filter (\<lambda>y. sortCmp lc k d z y = 0) (sortStage lc k d xs)
          = filter (\<lambda>y. sortCmp lc k d z y = 0) xs)"
proof (intro conjI impI)
  show "mset (sortStage lc k d xs) = mset xs"
    by (simp add: sortStage_def mset_js_sort)
  assume h: "consistentCompare lc \<or> k = Key_budget \<or> k = Key_spent"
  have sym: "\<And>a b. sortCmp lc k d a b = 0 \<Longrightarrow> sortCmp lc k d b a = 0"
    using h sortCmp_sym sortCmp_numeric_sym by blast
  have trans: "\<And>a b e. sortCmp lc k d a b = 0 \<Longrightarrow> sortCmp lc k d b e = 0
                 \<Longrightarrow> sortCmp lc k d a e = 0"
    using h sortCmp_trans sortCmp_numeric_trans by blast
  show "filter (\<lambda>y. sortCmp lc k d z y = 0) (sortStage lc k d xs)
          = filter (\<lambda>y. sortCmp lc k d z y = 0) xs"
    unfolding sortStage_def by (rule js_sort_stable[of "sortCmp lc k d", OF sym trans])
qed


lemma ordinalCompare_simps:
  "ordinalCompare [] [] = 0"
  "ordinalCompare [] (y # ys) = - 1"
  "ordinalCompare (x # xs) [] = 1"
  "ordinalCompare (x # xs) (y # ys) = (if x < y then - 1 else if y < x then 1 else ordinalCompare xs ys)"
  by (auto simp: ordinalCompare_def)

lemma scenarioD_by_budget:
  "map pid (sortStage lc Key_budget Desc scenarioD) = [9, 3, 7]"
  by (simp add: sortStage_def js_sort_def sortCmp_def field_def compare_def scenarioD_def
      project_def)

lemma scenarioD_by_name:
  "map pid (sortStage ordinalCompare Key_name Desc scenarioD) = [3, 7, 9]"
  "map pid (sortStage ordinalCompare Key_name Asc scenarioD) = [9, 3, 7]"
  by (simp_all add: sortStage_def js_sort_def sortCmp_def field_def compare_def scenarioD_def
      project_def ordinalCompare_simps)

theorem sort_permutation_stable_witness:
  "consistentCompare ordinalCompare
   \<and> mset (sortStage ordinalCompare Key_budget Desc scenarioD) = mset scenarioD
   \<and> map pid (sortStage ordinalCompare Key_budget Desc scenarioD) = [9, 3, 7]
   \<and> map pid (filter (\<lambda>y. sortCmp ordinalCompare Key_budget Desc (hd scenarioD) y = 0)
                 (sortStage ordinalCompare Key_budget Desc scenarioD)) = [3, 7]
   \<and> map pid (filter (\<lambda>y. sortCmp ordinalCompare Key_name Asc (hd scenarioD) y = 0)
                 (sortStage ordinalCompare Key_name Asc scenarioD)) = [3, 7]"
proof -
  have eqb: "map pid (filter (\<lambda>y. sortCmp ordinalCompare Key_budget Desc (hd scenarioD) y = 0) scenarioD)
               = [3, 7]"
    by (simp add: sortCmp_def field_def compare_def scenarioD_def project_def)
  have eqn: "map pid (filter (\<lambda>y. sortCmp ordinalCompare Key_name Asc (hd scenarioD) y = 0) scenarioD)
               = [3, 7]"
    by (simp add: sortCmp_def field_def compare_def scenarioD_def project_def ordinalCompare_simps)
  show ?thesis
    using sort_permutation_stable[of ordinalCompare Key_budget Desc scenarioD "hd scenarioD"]
      sort_permutation_stable[of ordinalCompare Key_name Asc scenarioD "hd scenarioD"]
      consistent_ordinalCompare scenarioD_by_budget[of ordinalCompare] eqb eqn
    by simp
qed

subsection \<open>The component of variant A\<close>

lemma current_page: "current lc ps (st\<lparr>page := p\<rparr>) = current lc ps st"
  by (simp add: current_def)

lemma length_current:
  "length (current lc ps st) = length (filterStage ps (query st) (statusFilter st))"
  by (simp add: current_def filteredProjects_def sortStage_def length_js_sort)

lemma normalize_empty: "normalize (Some []) = []"
  by (simp add: normalize_def trim_def toLowerCase_def)

lemma length_current_initial: "length (current lc ps initial) = length ps"
  by (simp add: length_current filterStage_def initial_def normalize_empty keeps_def)

text \<open>
  Claim C1. The KPI values and both chart datasets of a render are functions of the
  filtered and sorted collection alone; the total budget is the sum of the budgets
  (a missing one counting 0) over that collection; and a render that differs in the
  page index only has the same KPIs and the same chart datasets.
\<close>

theorem aggregates_from_filtered_sorted:
  "view_kpiValues (render lc formatEUR ps st) = kpiValues (current lc ps st)
   \<and> view_kpis (render lc formatEUR ps st) = calculateKPIs formatEUR (current lc ps st)
   \<and> view_statusData (render lc formatEUR ps st) = countByStatus (current lc ps st)
   \<and> view_topBudget (render lc formatEUR ps st) = topBudget (current lc ps st)
   \<and> view_rows (render lc formatEUR ps st) = pagedProjects pageSize_A (current lc ps st) (page st)
   \<and> totalBudget (view_kpiValues (render lc formatEUR ps st))
       = sum_list (map budget0 (current lc ps st))
   \<and> view_kpiValues (render lc formatEUR ps (st\<lparr>page := p\<rparr>))
       = view_kpiValues (render lc formatEUR ps st)
   \<and> view_kpis (render lc formatEUR ps (st\<lparr>page := p\<rparr>)) = view_kpis (render lc formatEUR ps st)
   \<and> view_statusData (render lc formatEUR ps (st\<lparr>page := p\<rparr>))
       = view_statusData (render lc formatEUR ps st)
   \<and> view_topBudget (render lc formatEUR ps (st\<lparr>page := p\<rparr>))
       = view_topBudget (render lc formatEUR ps st)"
  by (simp add: render_def Let_def current_page kpi_totalBudget)

lemma handler_page_ge1:
  assumes "1 \<le> page st" "1 \<le> tp"
  shows "1 \<le> page (handler tp ev st)"
  using assms by (cases ev) (simp_all add: handler_def)

lemma effect_page_ge1: "1 \<le> page st \<Longrightarrow> 1 \<le> page (effect before st)"
  by (simp add: effect_def)

lemma reachable_page_ge1: "reachable lc st \<Longrightarrow> 1 \<le> page st"
proof (induction rule: reachable.induct)
  case reach_init
  show ?case by (simp add: initial_def)
next
  case (reach_handler st projects ev)
  then show ?case by (simp add: handler_page_ge1 totalPages_ge1)
next
  case (reach_effect st projects ev)
  then show ?case
    unfolding step_def by (intro effect_page_ge1 handler_page_ge1) (simp_all add: totalPages_ge1)
qed

lemma step_Prev: "page (step lc projects Prev st) = max 1 (page st - 1)"
  by (simp add: step_def handler_def effect_def deps_def)

lemma step_Next:
  "page (step lc projects Next st)
     = min (totalPages pageSize_A (length (current lc projects st))) (page st + 1)"
  by (simp add: step_def handler_def effect_def deps_def)

text \<open>
  Claim C9. The page index starts at 1; Prev replaces it with \<open>max 1 (page - 1)\<close> and
  Next with \<open>min totalPages (page + 1)\<close>; hence it is at least 1 in every reachable
  state, and there the index shown, \<open>min page totalPages\<close>, lies in \<open>[1, totalPages]\<close>
  for a collection of any length, although that computation has no lower bound of
  its own.
\<close>

theorem page_index_invariant:
  "page initial = 1
   \<and> page (handler tp Prev st) = max 1 (page st - 1)
   \<and> page (handler tp Next st) = min tp (page st + 1)
   \<and> page (step lc projects Prev st) = max 1 (page st - 1)
   \<and> page (step lc projects Next st)
       = min (totalPages pageSize_A (length (current lc projects st))) (page st + 1)
   \<and> (reachable lc st \<longrightarrow>
         1 \<le> page st
       \<and> 1 \<le> safePage pageSize_A n (page st)
       \<and> safePage pageSize_A n (page st) \<le> totalPages pageSize_A n)"
proof (intro conjI impI)
  show "page initial = 1" by (simp add: initial_def)
  show "page (handler tp Prev st) = max 1 (page st - 1)" by (simp add: handler_def)
  show "page (handler tp Next st) = min tp (page st + 1)" by (simp add: handler_def)
  show "page (step lc projects Prev st) = max 1 (page st - 1)" by (rule step_Prev)
  show "page (step lc projects Next st)
       = min (totalPages pageSize_A (length (current lc projects st))) (page st + 1)"
    by (rule step_Next)
  assume r: "reachable lc st"
  then show "1 \<le> page st" by (rule reachable_page_ge1)
  then show "1 \<le> safePage pageSize_A n (page st)"
    using totalPages_ge1[of pageSize_A n] by (simp add: safePage_def)
  show "safePage pageSize_A n (page st) \<le> totalPages pageSize_A n"
    by (simp add: safePage_def)
qed

lemma totalPages_twelve: "totalPages pageSize_A (length (current lc twelve initial)) = 3"
  by (simp add: length_current_initial twelve_def totalPages_div pageSize_A_def upto.simps)

theorem page_index_invariant_witness:
  "reachable ordinalCompare (step ordinalCompare twelve Next initial)
   \<and> page (step ordinalCompare twelve Next initial) = 2
   \<and> safePage pageSize_A 3 (page (step ordinalCompare twelve Next initial)) = 1
   \<and> totalPages pageSize_A 3 = 1"
proof -
  have r: "reachable ordinalCompare (step ordinalCompare twelve Next initial)"
    by (rule reach_effect[OF reach_init])
  have p: "page (step ordinalCompare twelve Next initial) = 2"
    by (simp add: step_Next totalPages_twelve) (simp add: initial_def)
  have t: "totalPages pageSize_A 3 = 1" by (simp add: totalPages_div pageSize_A_def)
  show ?thesis
    using page_index_invariant[where lc = ordinalCompare
        and st = "step ordinalCompare twelve Next initial" and n = 3] r p t
    by (simp add: safePage_def)
qed



text \<open>
  The computation of variant A has no lower bound of its own: at a page index of 0
  or \<open>-1\<close> the index shown would be 0 or \<open>-1\<close>, and for \<open>-1\<close> the slice would count
  from the end of the array. By \<open>reachable_page_ge1\<close> the component never holds
  such an index.
\<close>

lemma safePage_below_one:
  "safePage pageSize_A (length scenarioA) 0 = 0
   \<and> safePage pageSize_A (length scenarioA) (- 1) = - 1
   \<and> map pid (pagedProjects pageSize_A scenarioA (- 1)) = [1, 2]"
  by (simp add: safePage_def pagedProjects_def totalPages_div pageSize_A_def scenarioA_def
      slice_def project_def)

text \<open>The effect of variant A: once it has run, a change of a dependency has reset the page.\<close>

lemma effect_resets_page:
  "deps (handler tp ev st) \<noteq> deps st \<Longrightarrow> page (effect st (handler tp ev st)) = 1"
  by (simp add: effect_def)

lemma handler_keeps_page:
  "ev \<noteq> Prev \<Longrightarrow> ev \<noteq> Next \<Longrightarrow> page (handler tp ev st) = page st"
  by (cases ev) (simp_all add: handler_def)

text \<open>The handlers of variant B for the search text and the status do reset the page.\<close>

lemma step_B_resets:
  "page_B (step_B tp (SetQ s) st) = 1" "page_B (step_B tp (SetStatus f) st) = 1"
  by (simp_all add: step_B_def)

text \<open>
  Claim C3 fails on variant B. From the initial state with twelve records, Next
  leads to page 2; toggling the sort direction or choosing another sort key then
  changes that input and leaves the page index at 2.
\<close>

theorem sort_change_keeps_page_B:
  "page_B (step_B (totalPages pageSize_B (length twelve)) Next_B initial_B) = 2
   \<and> page_B (step_B (totalPages pageSize_B (length twelve)) ToggleDir
               (step_B (totalPages pageSize_B (length twelve)) Next_B initial_B)) = 2
   \<and> dir_B (step_B (totalPages pageSize_B (length twelve)) ToggleDir
               (step_B (totalPages pageSize_B (length twelve)) Next_B initial_B)) = Asc
   \<and> dir_B (step_B (totalPages pageSize_B (length twelve)) Next_B initial_B) = Desc
   \<and> page_B (step_B (totalPages pageSize_B (length twelve)) (SetSort Sort_budget)
               (step_B (totalPages pageSize_B (length twelve)) Next_B initial_B)) = 2
   \<and> sort_B (step_B (totalPages pageSize_B (length twelve)) (SetSort Sort_budget)
               (step_B (totalPages pageSize_B (length twelve)) Next_B initial_B)) = Sort_budget
   \<and> sort_B (step_B (totalPages pageSize_B (length twelve)) Next_B initial_B) = Sort_createdAt"
  by (simp add: step_B_def initial_B_def totalPages_div pageSize_B_def twelve_def upto.simps)

subsection \<open>The filter stage\<close>

lemma includes_str_iff: "includes_str h q \<longleftrightarrow> (\<exists>u v. h = u @ q @ v)"
proof (induction h)
  case Nil
  show ?case by auto
next
  case (Cons c cs)
  show ?case
  proof
    assume "includes_str (c # cs) q"
    then consider "prefix q (c # cs)" | "includes_str cs q" by auto
    then show "\<exists>u v. c # cs = u @ q @ v"
    proof cases
      case 1
      then obtain v where "c # cs = q @ v" by (auto simp: prefix_def)
      then have "c # cs = [] @ q @ v" by simp
      then show ?thesis by blast
    next
      case 2
      then obtain u v where "cs = u @ q @ v" using Cons.IH by blast
      then have "c # cs = (c # u) @ q @ v" by simp
      then show ?thesis by blast
    qed
  next
    assume "\<exists>u v. c # cs = u @ q @ v"
    then obtain u v where uv: "c # cs = u @ q @ v" by blast
    show "includes_str (c # cs) q"
    proof (cases u)
      case Nil
      with uv have "prefix q (c # cs)" by (simp add: prefix_def)
      then show ?thesis by simp
    next
      case (Cons d u')
      with uv have "cs = u' @ q @ v" by simp
      then have "includes_str cs q" using Cons.IH by blast
      then show ?thesis by simp
    qed
  qed
qed

lemma keeps_iff:
  "keeps q sf p \<longleftrightarrow>
     (q = [] \<or> includes_str (hay p) q)
     \<and> (case sf of AllStatuses \<Rightarrow> True | Only s \<Rightarrow> status p = Some s)"
  by (auto simp: keeps_def Let_def)

lemma filterE_total:
  "\<forall>x\<in>set xs. \<exists>b. f x = Inr b \<Longrightarrow>
   filterE f xs = Inr (filter (\<lambda>x. f x = Inr True) xs)"
proof (induction xs)
  case Nil
  show ?case by simp
next
  case (Cons x xs)
  then obtain b where b: "f x = Inr b" by auto
  from Cons have "filterE f xs = Inr (filter (\<lambda>x. f x = Inr True) xs)" by simp
  with b show ?case by simp
qed

lemma keeps_B_present:
  assumes "name p = Some n" "owner p = Some ow"
  shows "keeps_B qq sf p =
     Inr ((qq = [] \<or> includes_str (toLowerCase n) qq \<or> includes_str (toLowerCase ow) qq
           \<or> includes_str (String_num (pid p)) qq)
          \<and> (case sf of AllStatuses \<Rightarrow> True | Only s \<Rightarrow> status p = Some s))"
  using assms by (simp add: keeps_B_def matchesQ_B_def Let_def)

text \<open>
  Claim C4, as amended. Variant A retains a record iff the normalized query (lower-cased
  and trimmed) is empty or a substring of the haystack, and the status filter is
  ALL or the record's status; the haystack joins, with single blanks, the seven
  fields name, owner, id, status label, budget, spent and creation date, each
  lower-cased and trimmed on its own. Variant B, on records whose name and owner are
  present, retains a record iff the trimmed, lower-cased query is empty or a
  substring of the lower-cased name, of the lower-cased owner or of the id, and the
  status filter is ALL or the record's status. Both keep the retained records in
  their original order.
\<close>

theorem filter_stage_rule:
  "filterStage projects qry sf
     = filter (\<lambda>p. (normalize (Some qry) = [] \<or> (\<exists>u v. hay p = u @ normalize (Some qry) @ v))
                    \<and> (case sf of AllStatuses \<Rightarrow> True | Only s \<Rightarrow> status p = Some s))
         projects
   \<and> hay r
       = join '' ''
           [trim (toLowerCase (case name r of None \<Rightarrow> [] | Some s \<Rightarrow> s)),
            trim (toLowerCase (case owner r of None \<Rightarrow> [] | Some s \<Rightarrow> s)),
            trim (toLowerCase (String_num (pid r))),
            trim (toLowerCase (case status r of None \<Rightarrow> [] | Some s \<Rightarrow> statusLabel s)),
            trim (toLowerCase (String_amount (budget r))),
            trim (toLowerCase (String_amount (spent r))),
            trim (toLowerCase (case createdAt r of None \<Rightarrow> [] | Some s \<Rightarrow> s))]
   \<and> subseq (filterStage projects qry sf) projects
   \<and> ((\<forall>p\<in>set projects. name p \<noteq> None \<and> owner p \<noteq> None) \<longrightarrow>
        filterStage_B projects qry sf
          = Inr (filter
                   (\<lambda>p. (toLowerCase (trim qry) = []
                         \<or> (\<exists>u v. toLowerCase (case name p of None \<Rightarrow> [] | Some s \<Rightarrow> s)
                                    = u @ toLowerCase (trim qry) @ v)
                         \<or> (\<exists>u v. toLowerCase (case owner p of None \<Rightarrow> [] | Some s \<Rightarrow> s)
                                    = u @ toLowerCase (trim qry) @ v)
                         \<or> (\<exists>u v. String_num (pid p) = u @ toLowerCase (trim qry) @ v))
                        \<and> (case sf of AllStatuses \<Rightarrow> True | Only s \<Rightarrow> status p = Some s))
                   projects))"
proof (intro conjI impI)
  show "filterStage projects qry sf
     = filter (\<lambda>p. (normalize (Some qry) = [] \<or> (\<exists>u v. hay p = u @ normalize (Some qry) @ v))
                    \<and> (case sf of AllStatuses \<Rightarrow> True | Only s \<Rightarrow> status p = Some s))
         projects"
    unfolding filterStage_def Let_def
    by (rule filter_cong) (simp_all add: keeps_iff includes_str_iff)
  show "hay r
       = join '' ''
           [trim (toLowerCase (case name r of None \<Rightarrow> [] | Some s \<Rightarrow> s)),
            trim (toLowerCase (case owner r of None \<Rightarrow> [] | Some s \<Rightarrow> s)),
            trim (toLowerCase (String_num (pid r))),
            trim (toLowerCase (case status r of None \<Rightarrow> [] | Some s \<Rightarrow> statusLabel s)),
            trim (toLowerCase (String_amount (budget r))),
            trim (toLowerCase (String_amount (spent r))),
            trim (toLowerCase (case createdAt r of None \<Rightarrow> [] | Some s \<Rightarrow> s))]"
    by (simp add: hay_def normalize_def split: option.splits)
  show "subseq (filterStage projects qry sf) projects"
    by (simp add: filterStage_def Let_def)
next
  let ?qq = "toLowerCase (trim qry)"
  let ?P = "\<lambda>p. (?qq = []
                \<or> (\<exists>u v. toLowerCase (case name p of None \<Rightarrow> [] | Some s \<Rightarrow> s) = u @ ?qq @ v)
                \<or> (\<exists>u v. toLowerCase (case owner p of None \<Rightarrow> [] | Some s \<Rightarrow> s) = u @ ?qq @ v)
                \<or> (\<exists>u v. String_num (pid p) = u @ ?qq @ v))
               \<and> (case sf of AllStatuses \<Rightarrow> True | Only s \<Rightarrow> status p = Some s)"
  assume pres: "\<forall>p\<in>set projects. name p \<noteq> None \<and> owner p \<noteq> None"
  have kb: "keeps_B ?qq sf p = Inr (?P p)" if "p \<in> set projects" for p
  proof -
    from pres that obtain n ow where "name p = Some n" "owner p = Some ow" by auto
    then show ?thesis by (simp add: keeps_B_present includes_str_iff)
  qed
  then have "\<forall>p\<in>set projects. \<exists>b. keeps_B ?qq sf p = Inr b" by blast
  then have "filterE (keeps_B ?qq sf) projects
               = Inr (filter (\<lambda>p. keeps_B ?qq sf p = Inr True) projects)"
    by (rule filterE_total)
  also have "filter (\<lambda>p. keeps_B ?qq sf p = Inr True) projects = filter ?P projects"
    by (rule filter_cong) (simp_all add: kb)
  finally show "filterStage_B projects qry sf = Inr (filter ?P projects)"
    by (simp add: filterStage_B_def Let_def)
qed

lemma scenarioA_present: "\<forall>p\<in>set scenarioA. name p \<noteq> None \<and> owner p \<noteq> None"
  by (simp add: scenarioA_def project_def)

lemma scenarioA_echo:
  "map pid (filterStage scenarioA ''  ECHO '' AllStatuses) = [5]"
  "map_sum (\<lambda>e. e) (map pid) (filterStage_B scenarioA ''  ECHO '' AllStatuses) = Inr [5]"
  "map pid (filterStage scenarioA ''an'' (Only ACTIVE)) = [1, 2]"
  by code_simp+

theorem filter_stage_rule_witness:
  "list_all (\<lambda>p. name p \<noteq> None \<and> owner p \<noteq> None) scenarioA
   \<and> subseq (filterStage scenarioA ''  ECHO '' AllStatuses) scenarioA
   \<and> map pid (filterStage scenarioA ''  ECHO '' AllStatuses) = [5]
   \<and> (\<exists>ys. filterStage_B scenarioA ''  ECHO '' AllStatuses = Inr ys \<and> map pid ys = [5])"
proof -
  note rule = filter_stage_rule[of scenarioA "''  ECHO ''" AllStatuses]
  have sub: "subseq (filterStage scenarioA ''  ECHO '' AllStatuses) scenarioA"
    by (rule rule[THEN conjunct2, THEN conjunct2, THEN conjunct1])
  have "\<exists>ys. filterStage_B scenarioA ''  ECHO '' AllStatuses = Inr ys"
    by (rule exI, rule rule[THEN conjunct2, THEN conjunct2, THEN conjunct2, THEN mp,
          OF scenarioA_present])
  then obtain ys where ys: "filterStage_B scenarioA ''  ECHO '' AllStatuses = Inr ys" ..
  with scenarioA_echo(2) have "map pid ys = [5]" by simp
  with ys have "\<exists>ys. filterStage_B scenarioA ''  ECHO '' AllStatuses = Inr ys \<and> map pid ys = [5]"
    by (intro exI conjI)
  moreover have "list_all (\<lambda>p. name p \<noteq> None \<and> owner p \<noteq> None) scenarioA"
    using scenarioA_present by (simp only: list_all_iff)
  ultimately show ?thesis using sub scenarioA_echo(1) by (intro conjI)
qed

text \<open>
  The claim as worded fails on both variants. Variant A trims every field before
  joining: the record named \<open>''foo ''\<close> with owner \<open>''bar''\<close> is retained for the query
  \<open>''foo bar''\<close>, which is no substring of the untrimmed concatenation. Variant B
  does not search the status label: for the query \<open>''active''\<close> it retains nothing
  where the claim retains the four active records.
\<close>

theorem filter_claim_counterexample:
  "filterStage [padded] ''foo bar'' AllStatuses = [padded]
   \<and> spec_filter [padded] ''foo bar'' AllStatuses = []
   \<and> map pid (spec_filter scenarioA ''active'' AllStatuses) = [1, 2, 5, 7]
   \<and> filterStage_B scenarioA ''active'' AllStatuses = Inr []"
  by code_simp

subsection \<open>Top budgets\<close>

lemma budgetCmp_key: "budgetCmp = (\<lambda>a b. (- budget0 a) - (- budget0 b))"
  by (intro ext) (simp add: budgetCmp_def)

lemma js_sort_budgetCmp: "js_sort budgetCmp xs = sort_key (\<lambda>p. - budget0 p) xs"
  unfolding budgetCmp_key by (rule js_sort_key)

lemma slice_take: "0 \<le> j \<Longrightarrow> slice xs 0 j = take (nat j) xs"
  using slice_nonneg[of 0 j xs] by simp

lemma topBudget_take:
  "topBudget xs
     = map (\<lambda>p. \<lparr>bar_id = pid p, bar_name = name p, bar_budget = budget0 p, bar_spent = spent0 p\<rparr>)
         (take 6 (js_sort budgetCmp xs))"
  by (simp add: topBudget_def slice_take)

lemma bar_budget_topBudget:
  "map bar_budget (topBudget xs) = take 6 (map budget0 (js_sort budgetCmp xs))"
  by (simp add: topBudget_take take_map o_def)

lemma sorted_budgets: "sorted_wrt (\<lambda>a b. budget0 b \<le> budget0 a) (js_sort budgetCmp xs)"
proof -
  have "sorted (map (\<lambda>p. - budget0 p) (sort_key (\<lambda>p. - budget0 p) xs))"
    by (rule sorted_sort_key)
  then show ?thesis by (simp add: js_sort_budgetCmp sorted_map)
qed

lemma stable_budgets:
  "filter (\<lambda>p. budget0 p = v) (js_sort budgetCmp xs) = filter (\<lambda>p. budget0 p = v) xs"
proof -
  have "filter (\<lambda>p. - budget0 p = - v) (sort_key (\<lambda>p. - budget0 p) xs)
          = filter (\<lambda>p. - budget0 p = - v) xs"
    by (rule sort_key_stable)
  then show ?thesis by (simp add: js_sort_budgetCmp)
qed

lemma budgets_of_permutation:
  assumes "mset xs = mset ys"
  shows "map budget0 (js_sort budgetCmp xs) = map budget0 (js_sort budgetCmp ys)"
proof -
  let ?f = "\<lambda>p. - budget0 p"
  have s: "map ?f (sort_key ?f zs) = sort (map ?f xs)" if "mset zs = mset xs" for zs
  proof (rule properties_for_sort[symmetric])
    show "mset (map ?f (sort_key ?f zs)) = mset (map ?f xs)"
      using that by (metis mset_map mset_sort)
    show "sorted (map ?f (sort_key ?f zs))" by (rule sorted_sort_key)
  qed
  have "map ?f (sort_key ?f xs) = map ?f (sort_key ?f ys)"
    using s[of xs] s[of ys] assms by simp
  then have "map (uminus \<circ> ?f) (sort_key ?f xs) = map (uminus \<circ> ?f) (sort_key ?f ys)"
    by (metis map_map)
  then show ?thesis by (simp add: js_sort_budgetCmp o_def)
qed

lemma sorted_of_permutation_distinct:
  assumes "mset xs = mset ys" "distinct (map budget0 xs)"
  shows "js_sort budgetCmp xs = js_sort budgetCmp ys"
proof -
  let ?f = "\<lambda>p. - budget0 p"
  have "inj_on budget0 (set xs)" using assms(2) by (simp add: distinct_map)
  then have inj: "inj_on ?f (set xs)" by (auto simp: inj_on_def)
  have "mset xs = mset (sort_key ?f ys)" using assms(1) by simp
  then have "sort_key ?f xs = sort_key ?f ys"
    using inj by (rule sort_key_inj_key_eq) (rule sorted_sort_key)
  then show ?thesis by (simp add: js_sort_budgetCmp)
qed

lemma mset_filteredProjects:
  "mset (filteredProjects lc ps q sf k d) = mset (filterStage ps q sf)"
  by (simp add: filteredProjects_def sortStage_def mset_js_sort)

lemma budgetCmp_B_present:
  "budget a \<noteq> None \<Longrightarrow> budget b \<noteq> None \<Longrightarrow> budgetCmp_B a b = budgetCmp a b"
  by (auto simp: budgetCmp_B_def budgetCmp_def budget0_def sub_js_def nanToZero_def)

lemma budgetBars_present:
  assumes "\<forall>p\<in>set xs. budget p \<noteq> None"
  shows "budgetBars xs
     = map (\<lambda>p. \<lparr>barB_name = name p, barB_budget = budget p, barB_spent = spent p\<rparr>)
         (take 6 (js_sort budgetCmp xs))"
proof -
  have "js_sort budgetCmp_B xs = js_sort budgetCmp xs"
    using assms by (intro js_sort_cong) (simp add: budgetCmp_B_present)
  then show ?thesis by (simp add: budgetBars_def slice_take)
qed

lemma filteredSorted_mset:
  assumes "filteredSorted getTime ds q sf s1 d1 = Inr us"
    and "filteredSorted getTime ds q sf s2 d2 = Inr vs"
  shows "mset us = mset vs"
proof -
  from assms(1) obtain fl where fl: "filterStage_B ds q sf = Inr fl"
    and us: "us = js_sort (sortCmp_B getTime s1 d1) fl"
    by (auto simp: filteredSorted_def split: sum.splits)
  from assms(2) fl have "vs = js_sort (sortCmp_B getTime s2 d2) fl"
    by (auto simp: filteredSorted_def split: sum.splits)
  with us show ?thesis by (simp add: mset_js_sort)
qed

lemma budgetBars_of_permutation:
  assumes m: "mset us = mset vs" and pres: "\<forall>p\<in>set us. budget p \<noteq> None"
  shows "map barB_budget (budgetBars us) = map barB_budget (budgetBars vs)"
    and "distinct (map budget0 us) \<Longrightarrow> budgetBars us = budgetBars vs"
proof -
  have pres': "\<forall>p\<in>set vs. budget p \<noteq> None" using m pres by (metis set_mset_mset)
  have some: "budget p = Some (budget0 p)" if "budget p \<noteq> None" for p
    using that by (auto simp: budget0_def)
  have sel: "map barB_budget (budgetBars zs) = map Some (take 6 (map budget0 (js_sort budgetCmp zs)))"
    if z: "\<forall>p\<in>set zs. budget p \<noteq> None" for zs
  proof -
    have "\<forall>p\<in>set (take 6 (js_sort budgetCmp zs)). budget p = Some (budget0 p)"
      using z some by (metis in_set_takeD set_js_sort)
    then show ?thesis
      by (simp add: budgetBars_present[OF z] take_map o_def cong: map_cong)
  qed
  show "map barB_budget (budgetBars us) = map barB_budget (budgetBars vs)"
    by (simp only: sel[OF pres] sel[OF pres'] budgets_of_permutation[OF m])
  show "budgetBars us = budgetBars vs" if "distinct (map budget0 us)"
    using sorted_of_permutation_distinct[OF m that]
    by (simp only: budgetBars_present[OF pres] budgetBars_present[OF pres'])
qed

text \<open>
  Claim C8, as amended. The Top budgets dataset holds the first six (or all, if
  fewer) records of the collection the chart receives, sorted by descending budget
  with a missing budget counting 0, each emitted with its id, name, budget and
  spent; a record left out never has a larger budget than one selected. Records
  with equal budgets keep the relative order they have in the collection the chart
  receives, which is the order the active sort produced. So for any two sort
  settings the datasets show the same sequence of budgets, and they are equal when
  no two filtered records share a budget. The inline chart of variant B selects the
  same records in the same order whenever no budget is missing, and then the same
  holds for its datasets under any two of its sort settings.
\<close>

theorem top_budgets_rule:
  "topBudget xs
     = map (\<lambda>p. \<lparr>bar_id = pid p, bar_name = name p, bar_budget = budget0 p, bar_spent = spent0 p\<rparr>)
         (take 6 (js_sort budgetCmp xs))
   \<and> length (topBudget xs) = min 6 (length xs)
   \<and> mset (js_sort budgetCmp xs) = mset xs
   \<and> sorted_wrt (\<lambda>a b. budget0 b \<le> budget0 a) (js_sort budgetCmp xs)
   \<and> filter (\<lambda>p. budget0 p = v) (js_sort budgetCmp xs) = filter (\<lambda>p. budget0 p = v) xs
   \<and> map bar_budget (topBudget (filteredProjects lc ps q sf k1 d1))
       = map bar_budget (topBudget (filteredProjects lc ps q sf k2 d2))
   \<and> (distinct (map budget0 (filterStage ps q sf)) \<longrightarrow>
        topBudget (filteredProjects lc ps q sf k1 d1) = topBudget (filteredProjects lc ps q sf k2 d2))
   \<and> ((\<forall>p\<in>set xs. budget p \<noteq> None) \<longrightarrow>
        budgetBars xs
          = map (\<lambda>p. \<lparr>barB_name = name p, barB_budget = budget p, barB_spent = spent p\<rparr>)
              (take 6 (js_sort budgetCmp xs)))
   \<and> (filteredSorted getTime ds qq sf s1 e1 = Inr us
        \<and> filteredSorted getTime ds qq sf s2 e2 = Inr vs
        \<and> (\<forall>p\<in>set us. budget p \<noteq> None) \<longrightarrow>
          map barB_budget (budgetBars us) = map barB_budget (budgetBars vs)
        \<and> (distinct (map budget0 us) \<longrightarrow> budgetBars us = budgetBars vs))"
proof (intro conjI impI)
  assume b: "filteredSorted getTime ds qq sf s1 e1 = Inr us
        \<and> filteredSorted getTime ds qq sf s2 e2 = Inr vs
        \<and> (\<forall>p\<in>set us. budget p \<noteq> None)"
  then have mb: "mset us = mset vs" using filteredSorted_mset by blast
  from b have pb: "\<forall>p\<in>set us. budget p \<noteq> None" by blast
  show "map barB_budget (budgetBars us) = map barB_budget (budgetBars vs)"
    using mb pb by (rule budgetBars_of_permutation(1))
  show "budgetBars us = budgetBars vs" if "distinct (map budget0 us)"
    using mb pb that by (rule budgetBars_of_permutation(2))
next
  show "topBudget xs
     = map (\<lambda>p. \<lparr>bar_id = pid p, bar_name = name p, bar_budget = budget0 p, bar_spent = spent0 p\<rparr>)
         (take 6 (js_sort budgetCmp xs))"
    by (rule topBudget_take)
  show "length (topBudget xs) = min 6 (length xs)"
    by (simp add: topBudget_take length_js_sort min.commute)
  show "mset (js_sort budgetCmp xs) = mset xs" by (rule mset_js_sort)
  show "sorted_wrt (\<lambda>a b. budget0 b \<le> budget0 a) (js_sort budgetCmp xs)"
    by (rule sorted_budgets)
  show "filter (\<lambda>p. budget0 p = v) (js_sort budgetCmp xs) = filter (\<lambda>p. budget0 p = v) xs"
    by (rule stable_budgets)
  have m: "mset (filteredProjects lc ps q sf k1 d1) = mset (filteredProjects lc ps q sf k2 d2)"
    by (simp add: mset_filteredProjects)
  show "map bar_budget (topBudget (filteredProjects lc ps q sf k1 d1))
       = map bar_budget (topBudget (filteredProjects lc ps q sf k2 d2))"
    by (simp only: bar_budget_topBudget budgets_of_permutation[OF m])
  show "topBudget (filteredProjects lc ps q sf k1 d1) = topBudget (filteredProjects lc ps q sf k2 d2)"
    if d: "distinct (map budget0 (filterStage ps q sf))"
  proof -
    have "mset (map budget0 (filteredProjects lc ps q sf k1 d1))
            = mset (map budget0 (filterStage ps q sf))"
      by (simp add: mset_filteredProjects)
    then have "distinct (map budget0 (filteredProjects lc ps q sf k1 d1))"
      using d by (metis mset_eq_imp_distinct_iff)
    with m have "js_sort budgetCmp (filteredProjects lc ps q sf k1 d1)
                   = js_sort budgetCmp (filteredProjects lc ps q sf k2 d2)"
      by (rule sorted_of_permutation_distinct)
    then show ?thesis by (simp only: topBudget_take)
  qed
  show "budgetBars xs
          = map (\<lambda>p. \<lparr>barB_name = name p, barB_budget = budget p, barB_spent = spent p\<rparr>)
              (take 6 (js_sort budgetCmp xs))"
    if "\<forall>p\<in>set xs. budget p \<noteq> None"
    using that by (rule budgetBars_present)
qed

lemma scenarioA_top:
  "distinct (map budget0 (filterStage scenarioA [] AllStatuses))"
  "\<forall>p\<in>set scenarioA. budget p \<noteq> None"
  "map bar_id (topBudget (filteredProjects ordinalCompare scenarioA [] AllStatuses Key_name Asc))
     = [3, 2, 7, 1, 6, 5]"
  "map barB_budget (budgetBars scenarioA) = [Some 300, Some 200, Some 125, Some 100, Some 75, Some 50]"
  "filteredSorted (\<lambda>s. None) scenarioA [] AllStatuses Sort_spent Asc
     = Inr (js_sort (sortCmp_B (\<lambda>s. None) Sort_spent Asc) scenarioA)"
  "filteredSorted (\<lambda>s. None) scenarioA [] AllStatuses Sort_spent Desc
     = Inr (js_sort (sortCmp_B (\<lambda>s. None) Sort_spent Desc) scenarioA)"
  "distinct (map budget0 scenarioA)"
  by code_simp+

theorem top_budgets_rule_witness:
  "distinct (map budget0 (filterStage scenarioA [] AllStatuses))
   \<and> list_all (\<lambda>p. budget p \<noteq> None) scenarioA
   \<and> topBudget (filteredProjects ordinalCompare scenarioA [] AllStatuses Key_name Asc)
       = topBudget (filteredProjects ordinalCompare scenarioA [] AllStatuses Key_spent Desc)
   \<and> map bar_id (topBudget (filteredProjects ordinalCompare scenarioA [] AllStatuses Key_spent Desc))
       = [3, 2, 7, 1, 6, 5]
   \<and> map barB_budget
         (map (\<lambda>p. \<lparr>barB_name = name p, barB_budget = budget p, barB_spent = spent p\<rparr>)
            (take 6 (js_sort budgetCmp scenarioA)))
       = [Some 300, Some 200, Some 125, Some 100, Some 75, Some 50]
   \<and> budgetBars (js_sort (sortCmp_B (\<lambda>s. None) Sort_spent Asc) scenarioA)
       = budgetBars (js_sort (sortCmp_B (\<lambda>s. None) Sort_spent Desc) scenarioA)"
proof -
  let ?us = "js_sort (sortCmp_B (\<lambda>s. None) Sort_spent Asc) scenarioA"
  let ?vs = "js_sort (sortCmp_B (\<lambda>s. None) Sort_spent Desc) scenarioA"
  note rule = top_budgets_rule[where xs = scenarioA and lc = ordinalCompare and ps = scenarioA
      and q = "[]" and sf = AllStatuses and ?k1.0 = Key_name and ?d1.0 = Asc
      and ?k2.0 = Key_spent and ?d2.0 = Desc and getTime = "\<lambda>s. None" and ds = scenarioA
      and qq = "[]" and ?s1.0 = Sort_spent and ?e1.0 = Asc and ?s2.0 = Sort_spent
      and ?e2.0 = Desc and us = ?us and vs = ?vs]
  have eq: "topBudget (filteredProjects ordinalCompare scenarioA [] AllStatuses Key_name Asc)
       = topBudget (filteredProjects ordinalCompare scenarioA [] AllStatuses Key_spent Desc)"
    by (rule rule[THEN conjunct2, THEN conjunct2, THEN conjunct2, THEN conjunct2, THEN conjunct2,
          THEN conjunct2, THEN conjunct1, THEN mp, OF scenarioA_top(1)])
  have b: "budgetBars scenarioA
          = map (\<lambda>p. \<lparr>barB_name = name p, barB_budget = budget p, barB_spent = spent p\<rparr>)
              (take 6 (js_sort budgetCmp scenarioA))"
    by (rule rule[THEN conjunct2, THEN conjunct2, THEN conjunct2, THEN conjunct2, THEN conjunct2,
          THEN conjunct2, THEN conjunct2, THEN conjunct1, THEN mp, OF scenarioA_top(2)])
  have pu: "\<forall>p\<in>set ?us. budget p \<noteq> None"
    using scenarioA_top(2) by (simp only: set_js_sort)
  have "mset (map budget0 ?us) = mset (map budget0 scenarioA)"
    by (simp add: mset_js_sort)
  then have du: "distinct (map budget0 ?us)"
    using scenarioA_top(7) by (metis mset_eq_imp_distinct_iff)
  have "map barB_budget (budgetBars ?us) = map barB_budget (budgetBars ?vs)
        \<and> (distinct (map budget0 ?us) \<longrightarrow> budgetBars ?us = budgetBars ?vs)"
    using scenarioA_top(5,6) pu
    by (intro rule[THEN conjunct2, THEN conjunct2, THEN conjunct2, THEN conjunct2, THEN conjunct2,
          THEN conjunct2, THEN conjunct2, THEN conjunct2, THEN mp]) (intro conjI)
  with du have c: "budgetBars ?us = budgetBars ?vs" by blast
  show ?thesis
    using eq b c scenarioA_top(1-4) by (simp add: list_all_iff)
qed

text \<open>
  The original order of the two records with budget 200 is 3, 7. With the sort
  key spent the chart receives them as 3, 7 when ascending and as 7, 3 when
  descending, and the dataset follows: it is not independent of the sort setting,
  and its ties are not in the original order. Variant B behaves alike.
\<close>

theorem top_budgets_counterexample:
  "map pid scenarioD = [3, 9, 7]
   \<and> map bar_id (topBudget (filteredProjects ordinalCompare scenarioD [] AllStatuses Key_spent Asc))
       = [9, 3, 7]
   \<and> map bar_id (topBudget (filteredProjects ordinalCompare scenarioD [] AllStatuses Key_spent Desc))
       = [9, 7, 3]
   \<and> map_sum (\<lambda>e. e) (\<lambda>xs. map barB_spent (budgetBars xs))
         (filteredSorted (\<lambda>s. None) scenarioD [] AllStatuses Sort_spent Asc)
       = Inr [Some 20, Some 10, Some 30]
   \<and> map_sum (\<lambda>e. e) (\<lambda>xs. map barB_spent (budgetBars xs))
         (filteredSorted (\<lambda>s. None) scenarioD [] AllStatuses Sort_spent Desc)
       = Inr [Some 20, Some 30, Some 10]"
  by code_simp

subsection \<open>The store\<close>

lemma extends_refl: "extends h h"
  by (simp add: extends_def)

lemma extends_trans: "extends h1 h2 \<Longrightarrow> extends h2 h3 \<Longrightarrow> extends h1 h3"
  by (auto simp: extends_def)

lemma extends_contents: "extends h h' \<Longrightarrow> a < fresh h \<Longrightarrow> contents h' a = contents h a"
  by (simp add: extends_def contents_def)

lemma alloc_props:
  assumes "alloc h rs = (h', a)"
  shows "extends h h'" "a = fresh h" "fresh h' = Suc (fresh h)" "arrs h' a = rs"
    "contents h' a = map (objs h) rs"
  using assms by (auto simp: alloc_def extends_def contents_def)

lemma array_sort_props:
  "objs (array_sort c h a) = objs h" "fresh (array_sort c h a) = fresh h"
  "b \<noteq> a \<Longrightarrow> arrs (array_sort c h a) b = arrs h b"
  by (simp_all add: array_sort_def)

lemma map_insertBy:
  "map f (insertBy (\<lambda>r s. c (f r) (f s)) x ys) = insertBy c (f x) (map f ys)"
  by (induction ys) simp_all

lemma map_js_sort: "map f (js_sort (\<lambda>r s. c (f r) (f s)) rs) = js_sort c (map f rs)"
  by (induction rs) (simp_all add: js_sort_Nil js_sort_Cons map_insertBy)

lemma contents_array_sort: "contents (array_sort c h a) a = js_sort c (contents h a)"
  by (simp add: contents_def array_sort_def map_js_sort)

lemma array_sort_extends:
  assumes "extends h0 h" "fresh h0 \<le> a"
  shows "extends h0 (array_sort c h a)"
  using assms by (auto simp: extends_def array_sort_def)

lemma array_filter_props:
  assumes "array_filter P h a = (h', b)"
  shows "extends h h'" "b = fresh h" "fresh h' = Suc (fresh h)"
    "contents h' b = filter P (contents h a)"
proof -
  from assms have al: "alloc h (filter (\<lambda>r. P (objs h r)) (arrs h a)) = (h', b)"
    by (simp add: array_filter_def)
  show "extends h h'" "b = fresh h" "fresh h' = Suc (fresh h)"
    using alloc_props[OF al] by blast+
  show "contents h' b = filter P (contents h a)"
    using alloc_props(5)[OF al] by (simp add: contents_def filter_map o_def)
qed

lemma array_slice_props:
  assumes "array_slice h a i j = (h', b)"
  shows "extends h h'" "b = fresh h" "fresh h' = Suc (fresh h)"
    "arrs h' b = slice (arrs h a) i j"
  using assms alloc_props[of h "slice (arrs h a) i j" h' b] by (simp_all add: array_slice_def)

lemma map_slice: "map f (slice xs i j) = slice (map f xs) i j"
  by (simp add: slice_def Let_def take_map drop_map)

lemma array_slice_contents:
  assumes "array_slice h a i j = (h', b)"
  shows "contents h' b = slice (contents h a) i j"
  using assms alloc_props(5)[of h "slice (arrs h a) i j" h' b]
  by (simp add: array_slice_def contents_def map_slice)

lemma array_copy_props:
  assumes "array_copy h a = (h', b)"
  shows "extends h h'" "b = fresh h" "fresh h' = Suc (fresh h)" "contents h' b = contents h a"
  using assms alloc_props[of h "arrs h a" h' b] by (simp_all add: array_copy_def contents_def)

text \<open>The stages in the store compute what the pure stages compute, and only add arrays.\<close>

lemma filteredProjects_st_props:
  assumes "filteredProjects_st lc h src qry sf k d = (h', fp)"
  shows "extends h h'" "fp = fresh h" "fresh h' = Suc (fresh h)"
    "contents h' fp = filteredProjects lc (contents h src) qry sf k d"
proof -
  obtain h1 l where f: "array_filter (keeps (normalize (Some qry)) sf) h src = (h1, l)"
    by (cases "array_filter (keeps (normalize (Some qry)) sf) h src")
  with assms have h': "h' = array_sort (sortCmp lc k d) h1 l" and fp: "fp = l"
    by (auto simp: filteredProjects_st_def Let_def)
  note p = array_filter_props[OF f]
  show "fp = fresh h" using p(2) fp by simp
  show "fresh h' = Suc (fresh h)" using p(3) h' by (simp add: array_sort_props)
  show "extends h h'"
    unfolding h' using p(1) p(2) by (intro array_sort_extends) simp_all
  show "contents h' fp = filteredProjects lc (contents h src) qry sf k d"
    unfolding h' fp
    by (simp add: contents_array_sort p(4) filteredProjects_def sortStage_def filterStage_def Let_def)
qed

lemma topBudget_st_props:
  assumes "topBudget_st h a = (h', bars)"
  shows "extends h h'" "bars = topBudget (contents h a)"
proof -
  obtain h1 c where c: "array_copy h a = (h1, c)" by (cases "array_copy h a")
  let ?h2 = "array_sort budgetCmp h1 c"
  obtain h3 t where t: "array_slice ?h2 c 0 6 = (h3, t)" by (cases "array_slice ?h2 c 0 6")
  from assms c t have h': "h' = h3"
    and bars: "bars = map (\<lambda>p. \<lparr>bar_id = pid p, bar_name = name p, bar_budget = budget0 p,
                    bar_spent = spent0 p\<rparr>) (contents h3 t)"
    by (auto simp: topBudget_st_def Let_def)
  note pc = array_copy_props[OF c]
  have e2: "extends h ?h2" using pc(1) pc(2) by (intro array_sort_extends) simp_all
  have "extends ?h2 h3" using array_slice_props(1)[OF t] .
  with e2 show "extends h h'" unfolding h' by (rule extends_trans)
  have "contents h3 t = slice (js_sort budgetCmp (contents h a)) 0 6"
    using array_slice_contents[OF t] by (simp add: contents_array_sort pc(4))
  then show "bars = topBudget (contents h a)" by (simp add: bars topBudget_def)
qed

lemma pagedProjects_st_props:
  assumes "pagedProjects_st ps h a pg = (h', rows)"
  shows "extends h h'" "rows = fresh h" "contents h' rows = pagedProjects ps (contents h a) pg"
    "fresh h' = Suc (fresh h)"
proof -
  let ?start = "(safePage ps (length (arrs h a)) pg - 1) * ps"
  from assms have s: "array_slice h a ?start (?start + ps) = (h', rows)"
    by (simp add: pagedProjects_st_def Let_def)
  show "extends h h'" "rows = fresh h" "fresh h' = Suc (fresh h)"
    using array_slice_props[OF s] by blast+
  show "contents h' rows = pagedProjects ps (contents h a) pg"
    using array_slice_contents[OF s] by (simp add: pagedProjects_def Let_def contents_def)
qed

lemma recompute_st_props:
  assumes src: "src < fresh h"
    and r: "recompute_st lc h src st = (h', fp, rows, kp, sd, bars)"
  shows "extends h h'"
    and "fresh h \<le> fp" and "fp < rows"
    and "contents h' src = contents h src"
    and "arrs h' fp = arrs (fst (filteredProjects_st lc h src (query st) (statusFilter st)
                                  (sortKey st) (sortDir st))) fp"
    and "contents h' fp = current lc (contents h src) st"
    and "contents h' rows = pagedProjects pageSize_A (current lc (contents h src) st) (page st)"
    and "kp = kpiValues (current lc (contents h src) st)"
    and "sd = countByStatus (current lc (contents h src) st)"
    and "bars = topBudget (current lc (contents h src) st)"
proof -
  obtain h1 l where f: "filteredProjects_st lc h src (query st) (statusFilter st) (sortKey st)
                          (sortDir st) = (h1, l)"
    by (cases "filteredProjects_st lc h src (query st) (statusFilter st) (sortKey st) (sortDir st)")
  obtain h2 rw where p: "pagedProjects_st pageSize_A h1 l (page st) = (h2, rw)"
    by (cases "pagedProjects_st pageSize_A h1 l (page st)")
  obtain h3 tb where t: "topBudget_st h2 l = (h3, tb)" by (cases "topBudget_st h2 l")
  from r f p t have eqs: "h' = h3" "fp = l" "rows = rw" "kp = kpiValues (contents h1 l)"
    "sd = countByStatus (contents h3 l)" "bars = tb"
    by (auto simp: recompute_st_def Let_def)
  note pf = filteredProjects_st_props[OF f]
  note pp = pagedProjects_st_props[OF p]
  note pt = topBudget_st_props[OF t]
  have c1: "contents h1 l = current lc (contents h src) st" using pf(4) by (simp add: current_def)
  have l1: "l < fresh h1" using pf(2,3) by simp
  have e13: "extends h1 h3" using pp(1) pt(1) by (rule extends_trans)
  have l2: "l < fresh h2" using l1 pp(1) by (simp add: extends_def)
  have c2: "contents h2 l = contents h1 l" using pp(1) l1 by (rule extends_contents)
  have c3: "contents h3 l = contents h1 l" using e13 l1 by (rule extends_contents)
  show e: "extends h h'" unfolding eqs using pf(1) e13 by (rule extends_trans)
  show "fresh h \<le> fp" using pf(2) eqs by simp
  show "fp < rows" using pp(2) pf(2,3) eqs by simp
  show "contents h' src = contents h src" using e src by (rule extends_contents)
  show "arrs h' fp = arrs (fst (filteredProjects_st lc h src (query st) (statusFilter st)
                                  (sortKey st) (sortDir st))) fp"
    using e13 l1 by (simp add: f eqs extends_def)
  show "contents h' fp = current lc (contents h src) st" using c3 c1 eqs by simp
  show "contents h' rows = pagedProjects pageSize_A (current lc (contents h src) st) (page st)"
  proof -
    have "rw < fresh h2" using pp(2) pp(4) by simp
    with pt(1) have "contents h3 rw = contents h2 rw" by (intro extends_contents)
    then show ?thesis using pp(3) c1 eqs by simp
  qed
  show "kp = kpiValues (current lc (contents h src) st)" using eqs c1 by simp
  show "sd = countByStatus (current lc (contents h src) st)" using eqs c3 c1 by simp
  show "bars = topBudget (current lc (contents h src) st)" using eqs pt(2) c2 c1 by simp
qed


lemma filterE_map:
  "filterE f (map g rs) = map_sum (\<lambda>e. e) (map g) (filterE (\<lambda>r. f (g r)) rs)"
  by (induction rs) (auto split: sum.splits)

lemma filteredSorted_st_props:
  assumes "filteredSorted_st getTime h src q sf srt dir = (h', res)"
  shows "extends h h'"
    and "case res of
           Inl e \<Rightarrow> filteredSorted getTime (contents h src) q sf srt dir = Inl e
         | Inr fs \<Rightarrow>
             fresh h \<le> fs \<and> fs < fresh h'
             \<and> filteredSorted getTime (contents h src) q sf srt dir = Inr (contents h' fs)"
proof -
  let ?qq = "toLowerCase (trim q)"
  obtain h1 items where c: "array_copy h src = (h1, items)" by (cases "array_copy h src")
  note pc = array_copy_props[OF c]
  let ?fe = "filterE (\<lambda>r. keeps_B ?qq sf (objs h1 r)) (arrs h1 items)"
  have pure: "filterStage_B (contents h src) q sf = map_sum (\<lambda>e. e) (map (objs h1)) ?fe"
    using pc(4) by (simp add: filterStage_B_def Let_def contents_def filterE_map[symmetric])
  have both: "extends h h' \<and>
        (case res of
           Inl e \<Rightarrow> filteredSorted getTime (contents h src) q sf srt dir = Inl e
         | Inr fs \<Rightarrow>
             fresh h \<le> fs \<and> fs < fresh h'
             \<and> filteredSorted getTime (contents h src) q sf srt dir = Inr (contents h' fs))"
  proof (cases ?fe)
    case (Inl e)
    with assms c have "h' = h1" "res = Inl e"
      by (auto simp: filteredSorted_st_def Let_def)
    with pc(1) pure Inl show ?thesis by (simp add: filteredSorted_def)
  next
    case (Inr kept)
    obtain h2 fl where a: "alloc h1 kept = (h2, fl)" by (cases "alloc h1 kept")
    note pa = alloc_props[OF a]
    from assms c Inr a have h': "h' = array_sort (sortCmp_B getTime srt dir) h2 fl"
      and res: "res = Inr fl"
      by (auto simp: filteredSorted_st_def Let_def)
    have e12: "extends h h2" using pc(1) pa(1) by (rule extends_trans)
    have fl: "fresh h \<le> fl" using pa(2) pc(3) by simp
    have e: "extends h h'" unfolding h' using e12 fl by (rule array_sort_extends)
    have "contents h' fl = js_sort (sortCmp_B getTime srt dir) (map (objs h1) kept)"
      unfolding h' using pa(5) by (simp add: contents_array_sort)
    then have "filteredSorted getTime (contents h src) q sf srt dir = Inr (contents h' fl)"
      using pure Inr by (simp add: filteredSorted_def)
    moreover have "fl < fresh h'" unfolding h' using pa(2,3) by (simp add: array_sort_props)
    ultimately show ?thesis using e fl res by simp
  qed
  show "extends h h'" using both by blast
  show "case res of
           Inl e \<Rightarrow> filteredSorted getTime (contents h src) q sf srt dir = Inl e
         | Inr fs \<Rightarrow>
             fresh h \<le> fs \<and> fs < fresh h'
             \<and> filteredSorted getTime (contents h src) q sf srt dir = Inr (contents h' fs)"
    using both by blast
qed

lemma budgetBars_st_props:
  assumes "budgetBars_st h a = (h', bars)"
  shows "extends h h'" "bars = budgetBars (contents h a)"
proof -
  obtain h1 c where c: "array_copy h a = (h1, c)" by (cases "array_copy h a")
  let ?h2 = "array_sort budgetCmp_B h1 c"
  obtain h3 t where t: "array_slice ?h2 c 0 6 = (h3, t)" by (cases "array_slice ?h2 c 0 6")
  from assms c t have h': "h' = h3"
    and bars: "bars = map (\<lambda>p. \<lparr>barB_name = name p, barB_budget = budget p,
                    barB_spent = spent p\<rparr>) (contents h3 t)"
    by (auto simp: budgetBars_st_def Let_def)
  note pc = array_copy_props[OF c]
  have e2: "extends h ?h2" using pc(1) pc(2) by (intro array_sort_extends) simp_all
  have "extends ?h2 h3" using array_slice_props(1)[OF t] .
  with e2 show "extends h h'" unfolding h' by (rule extends_trans)
  have "contents h3 t = slice (js_sort budgetCmp_B (contents h a)) 0 6"
    using array_slice_contents[OF t] by (simp add: contents_array_sort pc(4))
  then show "bars = budgetBars (contents h a)" by (simp add: bars budgetBars_def)
qed

lemma recompute_B_st_props:
  assumes "recompute_B_st getTime h src st = (h', res)"
  shows "extends h h'"
    and "case res of
           Inl e \<Rightarrow> filteredSorted getTime (contents h src) (q_B st) (status_B st) (sort_B st)
                      (dir_B st) = Inl e
         | Inr (fs, rows, bars) \<Rightarrow>
             fresh h \<le> fs
             \<and> filteredSorted getTime (contents h src) (q_B st) (status_B st) (sort_B st)
                  (dir_B st) = Inr (contents h' fs)
             \<and> contents h' rows = pageItems pageSize_B (contents h' fs) (page_B st)
             \<and> bars = budgetBars (contents h' fs)"
proof -
  obtain h1 r1 where f: "filteredSorted_st getTime h src (q_B st) (status_B st) (sort_B st)
                           (dir_B st) = (h1, r1)"
    by (cases "filteredSorted_st getTime h src (q_B st) (status_B st) (sort_B st) (dir_B st)")
  note pf = filteredSorted_st_props[OF f]
  have both: "extends h h' \<and>
      (case res of
           Inl e \<Rightarrow> filteredSorted getTime (contents h src) (q_B st) (status_B st) (sort_B st)
                      (dir_B st) = Inl e
         | Inr (fs, rows, bars) \<Rightarrow>
             fresh h \<le> fs
             \<and> filteredSorted getTime (contents h src) (q_B st) (status_B st) (sort_B st)
                  (dir_B st) = Inr (contents h' fs)
             \<and> contents h' rows = pageItems pageSize_B (contents h' fs) (page_B st)
             \<and> bars = budgetBars (contents h' fs))"
  proof (cases r1)
    case (Inl e)
    with assms f have "h' = h1" "res = Inl e" by (auto simp: recompute_B_st_def)
    with pf Inl show ?thesis by simp
  next
    case (Inr fs)
    let ?sp = "safePage_B pageSize_B (length (arrs h1 fs)) (page_B st)"
    obtain h2 rw where s: "array_slice h1 fs ((?sp - 1) * pageSize_B) (?sp * pageSize_B) = (h2, rw)"
      by (cases "array_slice h1 fs ((?sp - 1) * pageSize_B) (?sp * pageSize_B)")
    obtain h3 bs where b: "budgetBars_st h2 fs = (h3, bs)" by (cases "budgetBars_st h2 fs")
    from assms f Inr s b have eqs: "h' = h3" "res = Inr (fs, rw, bs)"
      by (auto simp: recompute_B_st_def Let_def)
    note ps = array_slice_props[OF s]
    note pb = budgetBars_st_props[OF b]
    from pf(2) Inr have fs: "fresh h \<le> fs" "fs < fresh h1"
      and pure: "filteredSorted getTime (contents h src) (q_B st) (status_B st) (sort_B st)
                   (dir_B st) = Inr (contents h1 fs)"
      by simp_all
    have e13: "extends h1 h3" using ps(1) pb(1) by (rule extends_trans)
    have c3: "contents h3 fs = contents h1 fs" using e13 fs(2) by (rule extends_contents)
    have c2: "contents h2 fs = contents h1 fs" using ps(1) fs(2) by (rule extends_contents)
    have "rw < fresh h2" using ps(2,3) by simp
    with pb(1) have "contents h3 rw = contents h2 rw" by (intro extends_contents)
    moreover have "contents h2 rw = pageItems pageSize_B (contents h1 fs) (page_B st)"
      using array_slice_contents[OF s] by (simp add: pageItems_def Let_def contents_def)
    ultimately have rows: "contents h3 rw = pageItems pageSize_B (contents h3 fs) (page_B st)"
      using c3 by simp
    have "extends h h3" using pf(1) e13 by (rule extends_trans)
    then show ?thesis using eqs fs(1) pure c3 c2 rows pb(2) by simp
  qed
  show "extends h h'" using both by blast
  show "case res of
           Inl e \<Rightarrow> filteredSorted getTime (contents h src) (q_B st) (status_B st) (sort_B st)
                      (dir_B st) = Inl e
         | Inr (fs, rows, bars) \<Rightarrow>
             fresh h \<le> fs
             \<and> filteredSorted getTime (contents h src) (q_B st) (status_B st) (sort_B st)
                  (dir_B st) = Inr (contents h' fs)
             \<and> contents h' rows = pageItems pageSize_B (contents h' fs) (page_B st)
             \<and> bars = budgetBars (contents h' fs)"
    using both by blast
qed


text \<open>
  Claim C10. Let the record snapshot be an allocated array of the store. One
  recomputation of either variant writes no record, and changes no array that
  existed before, the snapshot included: it only adds arrays. The filtered and
  sorted array is one of the added arrays, and after pagination and after the Top
  budgets aggregation, which sorts a copy, it still holds what the filter and sort
  stages produced; the page and the aggregates are those of that collection.
\<close>

theorem pipeline_frame:
  assumes "src < fresh h"
  shows "(case recompute_st lc h src st of
            (h', fp, rows, kp, sd, bars) \<Rightarrow>
              objs h' = objs h
              \<and> (\<forall>a<fresh h. arrs h' a = arrs h a)
              \<and> contents h' src = contents h src
              \<and> fresh h \<le> fp
              \<and> arrs h' fp
                  = arrs (fst (filteredProjects_st lc h src (query st) (statusFilter st)
                                 (sortKey st) (sortDir st))) fp
              \<and> contents h' fp = current lc (contents h src) st
              \<and> contents h' rows
                  = pagedProjects pageSize_A (current lc (contents h src) st) (page st)
              \<and> kp = kpiValues (current lc (contents h src) st)
              \<and> sd = countByStatus (current lc (contents h src) st)
              \<and> bars = topBudget (current lc (contents h src) st))
       \<and> (case recompute_B_st getTime h src stB of
            (h', res) \<Rightarrow>
              objs h' = objs h
              \<and> (\<forall>a<fresh h. arrs h' a = arrs h a)
              \<and> contents h' src = contents h src
              \<and> (case res of
                    Inl e \<Rightarrow>
                      filteredSorted getTime (contents h src) (q_B stB) (status_B stB)
                        (sort_B stB) (dir_B stB) = Inl e
                  | Inr (fs, rows, bars) \<Rightarrow>
                      fresh h \<le> fs
                      \<and> filteredSorted getTime (contents h src) (q_B stB) (status_B stB)
                           (sort_B stB) (dir_B stB) = Inr (contents h' fs)
                      \<and> contents h' rows = pageItems pageSize_B (contents h' fs) (page_B stB)
                      \<and> bars = budgetBars (contents h' fs)))"
proof (rule conjI)
  obtain h' fp rows kp sd bars
    where r: "recompute_st lc h src st = (h', fp, rows, kp, sd, bars)"
    by (cases "recompute_st lc h src st")
  note p = recompute_st_props[OF assms r]
  from p(1) have "objs h' = objs h" "\<forall>a<fresh h. arrs h' a = arrs h a"
    by (simp_all add: extends_def)
  with p show "case recompute_st lc h src st of
            (h', fp, rows, kp, sd, bars) \<Rightarrow>
              objs h' = objs h
              \<and> (\<forall>a<fresh h. arrs h' a = arrs h a)
              \<and> contents h' src = contents h src
              \<and> fresh h \<le> fp
              \<and> arrs h' fp
                  = arrs (fst (filteredProjects_st lc h src (query st) (statusFilter st)
                                 (sortKey st) (sortDir st))) fp
              \<and> contents h' fp = current lc (contents h src) st
              \<and> contents h' rows
                  = pagedProjects pageSize_A (current lc (contents h src) st) (page st)
              \<and> kp = kpiValues (current lc (contents h src) st)
              \<and> sd = countByStatus (current lc (contents h src) st)
              \<and> bars = topBudget (current lc (contents h src) st)"
    unfolding r by simp
next
  obtain h' res where r: "recompute_B_st getTime h src stB = (h', res)"
    by (cases "recompute_B_st getTime h src stB")
  note p = recompute_B_st_props[OF r]
  from p(1) have "objs h' = objs h" "\<forall>a<fresh h. arrs h' a = arrs h a"
    by (simp_all add: extends_def)
  moreover have "contents h' src = contents h src" using p(1) assms by (rule extends_contents)
  ultimately show "case recompute_B_st getTime h src stB of
            (h', res) \<Rightarrow>
              objs h' = objs h
              \<and> (\<forall>a<fresh h. arrs h' a = arrs h a)
              \<and> contents h' src = contents h src
              \<and> (case res of
                    Inl e \<Rightarrow>
                      filteredSorted getTime (contents h src) (q_B stB) (status_B stB)
                        (sort_B stB) (dir_B stB) = Inl e
                  | Inr (fs, rows, bars) \<Rightarrow>
                      fresh h \<le> fs
                      \<and> filteredSorted getTime (contents h src) (q_B stB) (status_B stB)
                           (sort_B stB) (dir_B stB) = Inr (contents h' fs)
                      \<and> contents h' rows = pageItems pageSize_B (contents h' fs) (page_B stB)
                      \<and> bars = budgetBars (contents h' fs))"
    unfolding r using p(2) by simp
qed

lemma store0_eval:
  "(0::nat) < fresh store0"
  "map pid (contents store0 0) = [3, 9, 7]"
  "map pid (current ordinalCompare (contents store0 0) (initial\<lparr>sortKey := Key_budget\<rparr>)) = [9, 3, 7]"
  by code_simp+

theorem pipeline_frame_witness:
  "(0::nat) < fresh store0
   \<and> arrs (fst (recompute_st ordinalCompare store0 0 (initial\<lparr>sortKey := Key_budget\<rparr>))) 0
       = arrs store0 0
   \<and> map pid (contents (fst (recompute_st ordinalCompare store0 0 (initial\<lparr>sortKey := Key_budget\<rparr>))) 0)
       = [3, 9, 7]
   \<and> map pid (contents (fst (recompute_st ordinalCompare store0 0 (initial\<lparr>sortKey := Key_budget\<rparr>)))
                (fst (snd (recompute_st ordinalCompare store0 0 (initial\<lparr>sortKey := Key_budget\<rparr>)))))
       = [9, 3, 7]
   \<and> arrs (fst (recompute_B_st (\<lambda>s. None) store0 0 initial_B)) 0 = arrs store0 0"
proof -
  note rule = pipeline_frame[OF store0_eval(1), of ordinalCompare "initial\<lparr>sortKey := Key_budget\<rparr>"
      "\<lambda>s. None" initial_B, unfolded case_prod_beta]
  have a: "arrs (fst (recompute_st ordinalCompare store0 0 (initial\<lparr>sortKey := Key_budget\<rparr>))) 0
             = arrs store0 0"
    using rule store0_eval(1) by blast
  have b: "arrs (fst (recompute_B_st (\<lambda>s. None) store0 0 initial_B)) 0 = arrs store0 0"
    using rule store0_eval(1) by blast
  have c: "contents (fst (recompute_st ordinalCompare store0 0 (initial\<lparr>sortKey := Key_budget\<rparr>))) 0
             = contents store0 0"
    using rule by blast
  have d: "contents (fst (recompute_st ordinalCompare store0 0 (initial\<lparr>sortKey := Key_budget\<rparr>)))
                (fst (snd (recompute_st ordinalCompare store0 0 (initial\<lparr>sortKey := Key_budget\<rparr>))))
             = current ordinalCompare (contents store0 0) (initial\<lparr>sortKey := Key_budget\<rparr>)"
    using rule by blast
  show ?thesis using a b c d store0_eval by simp
qed

end
